theory Spec2Isabelle
  imports Main "HOL-Library.Word" "HOL-Library.Multiset"
begin

section \<open>Spreadsheet column names\<close>

text \<open>
  \<^verbatim>\<open>columnIndexToLetter\<close> builds the name of a spreadsheet column from its index. The Go
  loop runs while \<^verbatim>\<open>index >= 0\<close>, prepends \<^verbatim>\<open>string('A'+index%26)\<close> to the result and
  continues with \<^verbatim>\<open>index/26 - 1\<close>. Inside the loop the index is never negative, so Go's
  truncating \<^verbatim>\<open>/\<close> and \<^verbatim>\<open>%\<close> agree with \<open>div\<close> and \<open>mod\<close>, the code point lies between
  65 and 90, and no step can overflow a machine integer: the index only shrinks.
\<close>

function columnIndexToLetter_loop :: "int \<Rightarrow> string \<Rightarrow> string" where
  "columnIndexToLetter_loop index result =
     (if index \<ge> 0
      then columnIndexToLetter_loop (index div 26 - 1) (char_of (65 + index mod 26) # result)
      else result)"
  by pat_completeness auto
termination
  by (relation "measure (\<lambda>(index, result). nat (index + 1))") auto

definition columnIndexToLetter :: "int \<Rightarrow> string" where
  "columnIndexToLetter index = columnIndexToLetter_loop index []"

text \<open>
  The reading of a column name as a bijective base-26 numeral, following the usual
  definition of that numeration: the letters \<open>A\<close> to \<open>Z\<close> are the digits 1 to 26, and the
  leftmost letter is the most significant. Column number \<open>n + 1\<close> is the column of index
  \<open>n\<close>.
\<close>

definition letter_digit :: "char \<Rightarrow> int" where
  "letter_digit c = of_char c - 64"

definition bijective26_value :: "string \<Rightarrow> int" where
  "bijective26_value s = foldl (\<lambda>v c. 26 * v + letter_digit c) 0 s"

definition is_column_letter :: "char \<Rightarrow> bool" where
  "is_column_letter c \<longleftrightarrow> 1 \<le> letter_digit c \<and> letter_digit c \<le> 26"

section \<open>Data model of the enrichment pipeline\<close>

text \<open>
  A Go \<^verbatim>\<open>error\<close> value is kept by its description, the text that \<^verbatim>\<open>%v\<close> prints.
\<close>

datatype go_error = GoError (error_text: string)

datatype go_panic = IndexOutOfRange | IntegerDivideByZero | MakeChanSizeOutOfRange

record ColumnSpec =
  Name :: string
  DataType :: string

record ProcessingTask =
  TaskRowIndex :: int
  TaskRowData :: "string \<rightharpoonup> string"

record ProcessingResult =
  RowIndex :: int
  RowData :: "string \<rightharpoonup> string"
  Results :: "string \<rightharpoonup> string"
  Error :: "go_error option"
  Tokens :: int

text \<open>
  The counters of \<^verbatim>\<open>ProcessingStats\<close> are \<^verbatim>\<open>int32\<close> and \<^verbatim>\<open>int64\<close>: machine words whose
  addition wraps. \<^verbatim>\<open>StartTime\<close> and \<^verbatim>\<open>EstimatedCost\<close> are only printed and are left out.
\<close>

record ProcessingStats =
  TotalRows :: nat
  CompletedRows :: "32 word"
  FailedRows :: "32 word"
  TotalTokens :: "64 word"

section \<open>Go primitives used by the pipeline\<close>

text \<open>\<^verbatim>\<open>copy(dst, src)\<close> overwrites the first \<open>min (len dst) (len src)\<close> cells of \<open>dst\<close>.\<close>

definition go_copy :: "'a list \<Rightarrow> 'a list \<Rightarrow> 'a list" where
  "go_copy dst src = take (length dst) src @ drop (length src) dst"

text \<open>Go's remainder truncates towards zero: the result has the sign of the dividend.\<close>

definition go_rem :: "int \<Rightarrow> int \<Rightarrow> int" where
  "go_rem a b = sgn a * (\<bar>a\<bar> mod \<bar>b\<bar>)"

definition HasSuffix :: "string \<Rightarrow> string \<Rightarrow> bool" where
  "HasSuffix s suffix \<longleftrightarrow>
     length suffix \<le> length s \<and> drop (length s - length suffix) s = suffix"

text \<open>The decimal digits that \<^verbatim>\<open>%d\<close> prints for a number that is not negative.\<close>

function decimal :: "nat \<Rightarrow> string" where
  "decimal n =
     (if n < 10 then [char_of (48 + n)] else decimal (n div 10) @ [char_of (48 + n mod 10)])"
  by pat_completeness auto
termination
  by (relation "measure id") auto

section \<open>Checkpoint and output files\<close>

text \<open>
  A written file is kept as what the writer library was given: for CSV the records
  passed to \<^verbatim>\<open>writer.Write\<close> in order, for a workbook the \<^verbatim>\<open>SetCellValue\<close> calls on
  \<^verbatim>\<open>Sheet1\<close> in order. The bytes on disk are the library's function of that sequence.
  \<open>os_create\<close> is the environment's answer to opening a file for writing: \<open>None\<close> when it
  succeeds, the error otherwise; a file that cannot be opened is left as it was. Writes to
  an opened file are taken to succeed.
\<close>

datatype artifact = CsvFile "string list list" | XlsxFile "(string \<times> string) list"

type_synonym files = "string \<rightharpoonup> artifact"

definition getColumnNames :: "ColumnSpec list \<Rightarrow> string list" where
  "getColumnNames specs = map Name specs"

definition saveCSV ::
  "(string \<Rightarrow> go_error option) \<Rightarrow> string \<Rightarrow> string list \<Rightarrow> string list list \<Rightarrow> files
     \<Rightarrow> go_error option \<times> files" where
  "saveCSV os_create filename hdrs table fs =
     (case os_create filename of
        Some err \<Rightarrow> (Some err, fs)
      | None \<Rightarrow> (None, fs(filename \<mapsto> CsvFile (hdrs # table))))"

definition saveExcel_cells :: "string list \<Rightarrow> string list list \<Rightarrow> (string \<times> string) list" where
  "saveExcel_cells hdrs table =
     map (\<lambda>(i, header). (columnIndexToLetter (int i) @ ''1'', header)) (enumerate 0 hdrs) @
     concat (map (\<lambda>(i, row).
               map (\<lambda>(j, v). (columnIndexToLetter (int j) @ decimal (i + 2), v)) (enumerate 0 row))
             (enumerate 0 table))"

definition saveExcel ::
  "(string \<Rightarrow> go_error option) \<Rightarrow> string \<Rightarrow> string list \<Rightarrow> string list list \<Rightarrow> files
     \<Rightarrow> go_error option \<times> files" where
  "saveExcel os_create filename hdrs table fs =
     (case os_create filename of
        Some err \<Rightarrow> (Some err, fs)
      | None \<Rightarrow> (None, fs(filename \<mapsto> XlsxFile (saveExcel_cells hdrs table))))"

text \<open>\<^verbatim>\<open>saveProgress\<close> writes to the output name with \<^verbatim>\<open>.tmp\<close> appended and drops the error.\<close>

definition saveProgress ::
  "(string \<Rightarrow> go_error option) \<Rightarrow> string \<Rightarrow> string list \<Rightarrow> string list list \<Rightarrow> ColumnSpec list
     \<Rightarrow> files \<Rightarrow> files" where
  "saveProgress os_create outputFile hdrs enriched specs fs =
     (let tempFile = outputFile @ ''.tmp'';
          fullHeaders = hdrs @ getColumnNames specs
      in if HasSuffix outputFile ''.csv''
         then snd (saveCSV os_create tempFile fullHeaders enriched fs)
         else snd (saveExcel os_create tempFile fullHeaders enriched fs))"

section \<open>The worker's Result and the sink's update\<close>

text \<open>
  The row data of a task: every header is bound to the row's cell in its position, or to
  the empty string when the row is too short. A header that occurs twice keeps the later
  cell.
\<close>

definition rowData_of :: "string list \<Rightarrow> string list \<Rightarrow> (string \<rightharpoonup> string)" where
  "rowData_of hdrs row =
     fold (\<lambda>(j, header) m. m(header \<mapsto> (if j < length row then row ! j else [])))
       (enumerate 0 hdrs) Map.empty"

definition sentinel :: "go_error \<Rightarrow> string" where
  "sentinel err = ''ERROR: '' @ error_text err"

definition error_results :: "ColumnSpec list \<Rightarrow> go_error \<Rightarrow> (string \<rightharpoonup> string)" where
  "error_results specs err = fold (\<lambda>spec m. m(Name spec \<mapsto> sentinel err)) specs Map.empty"

text \<open>
  What \<^verbatim>\<open>processWorker\<close> builds from a task and the return of \<^verbatim>\<open>processRow\<close>, which is
  either an error or a result of which the worker reads \<^verbatim>\<open>Results\<close> and \<^verbatim>\<open>Tokens\<close>.
\<close>

definition processWorker_result ::
  "ColumnSpec list \<Rightarrow> ProcessingTask \<Rightarrow> go_error + ProcessingResult \<Rightarrow> ProcessingResult" where
  "processWorker_result specs task outcome =
     (let processingResult =
            \<lparr>RowIndex = TaskRowIndex task, RowData = TaskRowData task,
             Results = Map.empty, Error = None, Tokens = 0\<rparr>
      in case outcome of
           Inl err \<Rightarrow> processingResult\<lparr>Error := Some err, Results := error_results specs err\<rparr>
         | Inr result \<Rightarrow> processingResult\<lparr>Results := Results result, Tokens := Tokens result\<rparr>)"

text \<open>
  The sink's loop over the column specs writes cell \<open>startIdx + i\<close> of the row for the
  \<open>i\<close>-th spec; \<open>k\<close> is that index. A write past the end of the slice panics.
\<close>

fun write_results ::
  "(string \<rightharpoonup> string) \<Rightarrow> nat \<Rightarrow> ColumnSpec list \<Rightarrow> string list \<Rightarrow> go_panic + string list" where
  "write_results res k [] row = Inr row"
| "write_results res k (spec # specs) row =
     (if k < length row
      then write_results res (Suc k) specs
             (row[k := (case res (Name spec) of Some v \<Rightarrow> v | None \<Rightarrow> [])])
      else Inl IndexOutOfRange)"

definition update_enriched ::
  "string list \<Rightarrow> ColumnSpec list \<Rightarrow> ProcessingResult \<Rightarrow> string list list
     \<Rightarrow> go_panic + string list list" where
  "update_enriched hdrs specs result enriched =
     (if 0 \<le> RowIndex result \<and> RowIndex result < int (length enriched)
      then (case write_results (Results result) (length hdrs) specs
                   (enriched ! nat (RowIndex result)) of
              Inl p \<Rightarrow> Inl p
            | Inr row \<Rightarrow> Inr (enriched[nat (RowIndex result) := row]))
      else Inl IndexOutOfRange)"

definition update_stats :: "ProcessingResult \<Rightarrow> ProcessingStats \<Rightarrow> ProcessingStats" where
  "update_stats result st =
     (if Error result = None
      then st\<lparr>CompletedRows := CompletedRows st + 1,
              TotalTokens := TotalTokens st + word_of_int (Tokens result)\<rparr>
      else st\<lparr>FailedRows := FailedRows st + 1\<rparr>)"

section \<open>The pipeline as a transition system\<close>

text \<open>
  \<^verbatim>\<open>processFullDataset\<close> starts a sink goroutine, \<^verbatim>\<open>workerCount\<close> worker goroutines and a
  task source goroutine, which talk over two buffered channels and share a cancellation
  context. The model is the interleaving of their atomic steps: a state holds the
  channels, every goroutine's position and the shared table and statistics; an event
  names the goroutine that moves (and, where the move depends on the outside world, what
  the outside world answered); a schedule is a list of events. Where Go's \<^verbatim>\<open>select\<close> has
  several ready cases any of them may be taken, so each ready case is its own event.
\<close>

record config =
  cfg_headers :: "string list"
  cfg_rows :: "string list list"
  cfg_columnSpecs :: "ColumnSpec list"
  cfg_workerCount :: int
  cfg_batchSize :: int
  cfg_outputFile :: string
  cfg_os_create :: "string \<Rightarrow> go_error option"
  cfg_files :: files

text \<open>
  A worker is waiting to receive a task, is at its \<^verbatim>\<open>select\<close> with a task in hand, is
  inside \<^verbatim>\<open>processRow\<close>, is waiting to send its result, or has returned.
\<close>

datatype worker =
    Receiving
  | Selecting ProcessingTask
  | Processing ProcessingTask
  | Sending ProcessingResult
  | Exited

fun exited :: "worker \<Rightarrow> bool" where
  "exited Exited = True"
| "exited _ = False"

datatype sink_pc = SinkRunning | SinkSignalling | SinkReturned

datatype main_pc = MainWaiting | MainAwaitDone | MainReturned

text \<open>
  \<open>next_row\<close> is the index of the task source's \<^verbatim>\<open>range\<close> loop. \<open>sent\<close> and \<open>applied\<close> are
  history: the tasks sent on the task channel and the results the sink has applied, each
  in order. No transition reads them.
\<close>

record state =
  cancelled :: bool
  next_row :: nat
  taskChan :: "ProcessingTask list"
  taskChan_closed :: bool
  workers :: "worker list"
  resultChan :: "ProcessingResult list"
  resultChan_closed :: bool
  enrichedRows :: "string list list"
  stats :: ProcessingStats
  processedCount :: nat
  sink :: sink_pc
  main :: main_pc
  files :: files
  sent :: "ProcessingTask list"
  applied :: "ProcessingResult list"

text \<open>
  A step of a schedule fails when the goroutine it names cannot move in the state
  (\<open>Disabled\<close>: the schedule is not one of the program's) or when the move panics, which
  ends the process.
\<close>

datatype stop = Disabled | Panic go_panic

datatype event =
    Cancel
  | SourceSend
  | SourceCancelled
  | SourceClose
  | WorkerReceive nat
  | WorkerSelect nat
  | WorkerReturn nat "go_error + ProcessingResult"
  | WorkerSend nat
  | MainClose
  | MainDone
  | SinkReceive
  | SinkTick
  | SinkCancelled

text \<open>
  Both channels are made with capacity \<^verbatim>\<open>workerCount*2\<close>; \<^verbatim>\<open>make\<close> panics on a negative
  size. A buffered channel is the list of the values in it: a send appends when there is
  room, a receive takes the head. Worker counts so large that the product overflows or the
  allocation fails are not distinguished from other counts.
\<close>

definition chan_cap :: "config \<Rightarrow> nat" where
  "chan_cap cfg = nat (cfg_workerCount cfg * 2)"

definition enrich_row :: "nat \<Rightarrow> string list \<Rightarrow> string list" where
  "enrich_row n row = go_copy (replicate (length row + n) []) row"

definition processFullDataset_init :: "config \<Rightarrow> go_panic + state" where
  "processFullDataset_init cfg =
     (if cfg_workerCount cfg * 2 < 0 then Inl MakeChanSizeOutOfRange
      else Inr \<lparr>cancelled = False, next_row = 0, taskChan = [], taskChan_closed = False,
                workers = replicate (nat (cfg_workerCount cfg)) Receiving,
                resultChan = [], resultChan_closed = False,
                enrichedRows = map (enrich_row (length (cfg_columnSpecs cfg))) (cfg_rows cfg),
                stats = \<lparr>TotalRows = length (cfg_rows cfg), CompletedRows = 0,
                         FailedRows = 0, TotalTokens = 0\<rparr>,
                processedCount = 0, sink = SinkRunning, main = MainWaiting,
                files = cfg_files cfg, sent = [], applied = []\<rparr>)"

subsection \<open>Task source\<close>

text \<open>
  One iteration of the source's loop ends in a \<^verbatim>\<open>select\<close> between the context's
  \<^verbatim>\<open>Done\<close> channel and the send. The \<^verbatim>\<open>break\<close> of the first case leaves the \<^verbatim>\<open>select\<close>
  only, so both cases go on to the next row. After the last row the channel is closed.
\<close>

definition source_send :: "config \<Rightarrow> state \<Rightarrow> stop + state" where
  "source_send cfg s =
     (if next_row s < length (cfg_rows cfg) \<and> length (taskChan s) < chan_cap cfg
      then let task = \<lparr>TaskRowIndex = int (next_row s),
                        TaskRowData = rowData_of (cfg_headers cfg) (cfg_rows cfg ! next_row s)\<rparr>
           in Inr (s\<lparr>taskChan := taskChan s @ [task], sent := sent s @ [task],
                     next_row := Suc (next_row s)\<rparr>)
      else Inl Disabled)"

definition source_cancelled :: "config \<Rightarrow> state \<Rightarrow> stop + state" where
  "source_cancelled cfg s =
     (if next_row s < length (cfg_rows cfg) \<and> cancelled s
      then Inr (s\<lparr>next_row := Suc (next_row s)\<rparr>)
      else Inl Disabled)"

definition source_close :: "config \<Rightarrow> state \<Rightarrow> stop + state" where
  "source_close cfg s =
     (if next_row s = length (cfg_rows cfg) \<and> \<not> taskChan_closed s
      then Inr (s\<lparr>taskChan_closed := True\<rparr>)
      else Inl Disabled)"

subsection \<open>Workers\<close>

definition worker_receive :: "nat \<Rightarrow> state \<Rightarrow> stop + state" where
  "worker_receive w s =
     (if w < length (workers s)
      then (case workers s ! w of
              Receiving \<Rightarrow>
                (case taskChan s of
                   task # rest \<Rightarrow>
                     Inr (s\<lparr>taskChan := rest, workers := (workers s)[w := Selecting task]\<rparr>)
                 | [] \<Rightarrow> if taskChan_closed s then Inr (s\<lparr>workers := (workers s)[w := Exited]\<rparr>)
                         else Inl Disabled)
            | _ \<Rightarrow> Inl Disabled)
      else Inl Disabled)"

text \<open>
  The worker's \<^verbatim>\<open>select\<close> has a \<^verbatim>\<open>default\<close>: it returns when the context is done and
  calls \<^verbatim>\<open>processRow\<close> otherwise.
\<close>

definition worker_select :: "nat \<Rightarrow> state \<Rightarrow> stop + state" where
  "worker_select w s =
     (if w < length (workers s)
      then (case workers s ! w of
              Selecting task \<Rightarrow>
                Inr (s\<lparr>workers := (workers s)[w := (if cancelled s then Exited else Processing task)]\<rparr>)
            | _ \<Rightarrow> Inl Disabled)
      else Inl Disabled)"

definition worker_return :: "config \<Rightarrow> nat \<Rightarrow> go_error + ProcessingResult \<Rightarrow> state \<Rightarrow> stop + state" where
  "worker_return cfg w outcome s =
     (if w < length (workers s)
      then (case workers s ! w of
              Processing task \<Rightarrow>
                Inr (s\<lparr>workers := (workers s)
                        [w := Sending (processWorker_result (cfg_columnSpecs cfg) task outcome)]\<rparr>)
            | _ \<Rightarrow> Inl Disabled)
      else Inl Disabled)"

definition worker_send :: "config \<Rightarrow> nat \<Rightarrow> state \<Rightarrow> stop + state" where
  "worker_send cfg w s =
     (if w < length (workers s) \<and> length (resultChan s) < chan_cap cfg
      then (case workers s ! w of
              Sending result \<Rightarrow>
                Inr (s\<lparr>resultChan := resultChan s @ [result], workers := (workers s)[w := Receiving]\<rparr>)
            | _ \<Rightarrow> Inl Disabled)
      else Inl Disabled)"

subsection \<open>The caller\<close>

text \<open>
  \<^verbatim>\<open>wg.Wait()\<close> returns when every worker has returned; the caller then closes the result
  channel and receives from \<^verbatim>\<open>doneChan\<close>, which is unbuffered: the sink's send and the
  caller's receive happen together.
\<close>

definition main_close :: "state \<Rightarrow> stop + state" where
  "main_close s =
     (if main s = MainWaiting \<and> list_all exited (workers s)
      then Inr (s\<lparr>resultChan_closed := True, main := MainAwaitDone\<rparr>)
      else Inl Disabled)"

definition main_done :: "state \<Rightarrow> stop + state" where
  "main_done s =
     (if main s = MainAwaitDone \<and> sink s = SinkSignalling
      then Inr (s\<lparr>main := MainReturned, sink := SinkReturned\<rparr>)
      else Inl Disabled)"

subsection \<open>Result sink\<close>

definition checkpoint :: "config \<Rightarrow> state \<Rightarrow> state" where
  "checkpoint cfg s =
     s\<lparr>files := saveProgress (cfg_os_create cfg) (cfg_outputFile cfg) (cfg_headers cfg)
                  (enrichedRows s) (cfg_columnSpecs cfg) (files s)\<rparr>"

text \<open>
  What the sink does with a received result: the row update, the statistics, the count,
  and a checkpoint when the count is a multiple of \<^verbatim>\<open>batchSize\<close>.
\<close>

definition sink_apply :: "config \<Rightarrow> ProcessingResult \<Rightarrow> state \<Rightarrow> stop + state" where
  "sink_apply cfg result s =
     (case update_enriched (cfg_headers cfg) (cfg_columnSpecs cfg) result (enrichedRows s) of
        Inl p \<Rightarrow> Inl (Panic p)
      | Inr enriched \<Rightarrow>
          let s1 = s\<lparr>enrichedRows := enriched, stats := update_stats result (stats s),
                     processedCount := Suc (processedCount s),
                     applied := applied s @ [result]\<rparr>
          in if cfg_batchSize cfg = 0 then Inl (Panic IntegerDivideByZero)
             else if go_rem (int (processedCount s1)) (cfg_batchSize cfg) = 0
             then Inr (checkpoint cfg s1)
             else Inr s1)"

definition sink_receive :: "config \<Rightarrow> state \<Rightarrow> stop + state" where
  "sink_receive cfg s =
     (if sink s = SinkRunning
      then (case resultChan s of
              result # rest \<Rightarrow> sink_apply cfg result (s\<lparr>resultChan := rest\<rparr>)
            | [] \<Rightarrow> if resultChan_closed s then Inr (s\<lparr>sink := SinkSignalling\<rparr>)
                    else Inl Disabled)
      else Inl Disabled)"

definition sink_tick :: "config \<Rightarrow> state \<Rightarrow> stop + state" where
  "sink_tick cfg s = (if sink s = SinkRunning then Inr (checkpoint cfg s) else Inl Disabled)"

definition sink_cancelled :: "config \<Rightarrow> state \<Rightarrow> stop + state" where
  "sink_cancelled cfg s =
     (if sink s = SinkRunning \<and> cancelled s
      then Inr ((checkpoint cfg s)\<lparr>sink := SinkSignalling\<rparr>)
      else Inl Disabled)"

subsection \<open>Schedules\<close>

fun step :: "config \<Rightarrow> event \<Rightarrow> state \<Rightarrow> stop + state" where
  "step cfg Cancel s = Inr (s\<lparr>cancelled := True\<rparr>)"
| "step cfg SourceSend s = source_send cfg s"
| "step cfg SourceCancelled s = source_cancelled cfg s"
| "step cfg SourceClose s = source_close cfg s"
| "step cfg (WorkerReceive w) s = worker_receive w s"
| "step cfg (WorkerSelect w) s = worker_select w s"
| "step cfg (WorkerReturn w outcome) s = worker_return cfg w outcome s"
| "step cfg (WorkerSend w) s = worker_send cfg w s"
| "step cfg MainClose s = main_close s"
| "step cfg MainDone s = main_done s"
| "step cfg SinkReceive s = sink_receive cfg s"
| "step cfg SinkTick s = sink_tick cfg s"
| "step cfg SinkCancelled s = sink_cancelled cfg s"

fun run :: "config \<Rightarrow> event list \<Rightarrow> state \<Rightarrow> stop + state" where
  "run cfg [] s = Inr s"
| "run cfg (e # es) s = (case step cfg e s of Inl x \<Rightarrow> Inl x | Inr s' \<Rightarrow> run cfg es s')"

text \<open>
  The states of \<^verbatim>\<open>processFullDataset\<close> under a schedule. The function has returned, with
  the state's table and statistics, when the caller is at \<open>MainReturned\<close>.
\<close>

definition processFullDataset :: "config \<Rightarrow> event list \<Rightarrow> stop + state" where
  "processFullDataset cfg es =
     (case processFullDataset_init cfg of Inl p \<Rightarrow> Inl (Panic p) | Inr s \<Rightarrow> run cfg es s)"

section \<open>Invariants of the pipeline\<close>

text \<open>A result counts as completed when it carries no error, as failed otherwise.\<close>

definition succeeded :: "ProcessingResult \<Rightarrow> bool" where
  "succeeded r \<longleftrightarrow> Error r = None"

text \<open>The statistics are a function of the results applied so far.\<close>

definition stats_inv :: "config \<Rightarrow> state \<Rightarrow> bool" where
  "stats_inv cfg s \<longleftrightarrow>
     TotalRows (stats s) = length (cfg_rows cfg) \<and>
     CompletedRows (stats s) = of_nat (length (filter succeeded (applied s))) \<and>
     FailedRows (stats s) = of_nat (length (filter (\<lambda>r. \<not> succeeded r) (applied s))) \<and>
     TotalTokens (stats s) = word_of_int (sum_list (map Tokens (filter succeeded (applied s)))) \<and>
     processedCount s = length (applied s)"

text \<open>
  The table keeps its shape, and outside the cells \<open>len headers \<le> j < len headers + len specs\<close>
  every row is the row that \<^verbatim>\<open>processFullDataset\<close> allocated.
\<close>

definition frame_inv :: "config \<Rightarrow> state \<Rightarrow> bool" where
  "frame_inv cfg s \<longleftrightarrow>
     length (enrichedRows s) = length (cfg_rows cfg) \<and>
     (\<forall>i < length (cfg_rows cfg).
        length (enrichedRows s ! i) = length (cfg_rows cfg ! i) + length (cfg_columnSpecs cfg) \<and>
        (\<forall>j. j < length (cfg_headers cfg) \<or>
              length (cfg_headers cfg) + length (cfg_columnSpecs cfg) \<le> j \<longrightarrow>
           enrichedRows s ! i ! j = enrich_row (length (cfg_columnSpecs cfg)) (cfg_rows cfg ! i) ! j))"

text \<open>
  The row indices that are somewhere in the pipeline: in the task channel, in a worker's
  hands, in the result channel, or applied.
\<close>

fun held :: "worker \<Rightarrow> int multiset" where
  "held (Selecting task) = {#TaskRowIndex task#}"
| "held (Processing task) = {#TaskRowIndex task#}"
| "held (Sending result) = {#RowIndex result#}"
| "held Receiving = {#}"
| "held Exited = {#}"

definition accounted :: "state \<Rightarrow> int multiset" where
  "accounted s =
     mset (map TaskRowIndex (taskChan s)) + sum_list (map held (workers s)) +
     mset (map RowIndex (resultChan s)) + mset (map RowIndex (applied s))"

definition sent_rows :: "state \<Rightarrow> int list" where
  "sent_rows s = map TaskRowIndex (sent s)"

definition applied_rows :: "state \<Rightarrow> int list" where
  "applied_rows s = map RowIndex (applied s)"

text \<open>
  Tasks are sent in ascending row order, nothing is in the pipeline that was not sent, and
  as long as the context is not cancelled nothing that was sent has left it and no row
  has been skipped.
\<close>

definition flow_inv :: "config \<Rightarrow> state \<Rightarrow> bool" where
  "flow_inv cfg s \<longleftrightarrow>
     next_row s \<le> length (cfg_rows cfg) \<and>
     sorted_wrt (<) (sent_rows s) \<and>
     (\<forall>i \<in> set (sent_rows s). 0 \<le> i \<and> i < int (next_row s)) \<and>
     accounted s \<subseteq># mset (sent_rows s) \<and>
     (\<not> cancelled s \<longrightarrow>
        accounted s = mset (sent_rows s) \<and> sent_rows s = map int [0..<next_row s])"

text \<open>How the goroutines' positions depend on each other.\<close>

definition ctrl_inv :: "config \<Rightarrow> state \<Rightarrow> bool" where
  "ctrl_inv cfg s \<longleftrightarrow>
     length (workers s) = nat (cfg_workerCount cfg) \<and>
     length (taskChan s) \<le> chan_cap cfg \<and>
     (taskChan_closed s \<longrightarrow> next_row s = length (cfg_rows cfg)) \<and>
     (resultChan_closed s \<longrightarrow> (\<forall>w < length (workers s). exited (workers s ! w))) \<and>
     (main s \<noteq> MainWaiting \<longrightarrow> resultChan_closed s) \<and>
     (main s = MainReturned \<longrightarrow> sink s = SinkReturned) \<and>
     (\<not> cancelled s \<longrightarrow> (\<exists>w < length (workers s). exited (workers s ! w)) \<longrightarrow>
        taskChan s = [] \<and> taskChan_closed s) \<and>
     (\<not> cancelled s \<longrightarrow> sink s \<noteq> SinkRunning \<longrightarrow> resultChan s = [] \<and> resultChan_closed s)"

text \<open>The checkpoint file of a run, if there is one.\<close>

definition checkpoint_file :: "config \<Rightarrow> state \<Rightarrow> artifact option" where
  "checkpoint_file cfg s = files s (cfg_outputFile cfg @ ''.tmp'')"

section \<open>Example runs\<close>

text \<open>
  A table of one column and two rows, one target column, one worker, on a file system
  where every file can be created and none exists yet.
\<close>

definition writable :: "string \<Rightarrow> go_error option" where
  "writable filename = None"

definition example_cfg :: config where
  "example_cfg =
     \<lparr>cfg_headers = [''h''], cfg_rows = [[''x''], [''y'']],
      cfg_columnSpecs = [\<lparr>Name = ''c'', DataType = ''string''\<rparr>],
      cfg_workerCount = 1, cfg_batchSize = 100, cfg_outputFile = ''out.csv'',
      cfg_os_create = writable, cfg_files = Map.empty\<rparr>"

definition example_answer :: "go_error + ProcessingResult" where
  "example_answer =
     Inr \<lparr>RowIndex = 0, RowData = Map.empty, Results = [''c'' \<mapsto> ''v''], Error = None,
          Tokens = 5\<rparr>"

definition example_failure :: "go_error + ProcessingResult" where
  "example_failure = Inl (GoError ''timeout'')"

text \<open>Both rows go through the worker, the second one fails; nothing is cancelled.\<close>

definition normal_schedule :: "event list" where
  "normal_schedule =
     [SourceSend, SourceSend, SourceClose,
      WorkerReceive 0, WorkerSelect 0, WorkerReturn 0 example_answer, WorkerSend 0,
      SinkReceive,
      WorkerReceive 0, WorkerSelect 0, WorkerReturn 0 example_failure, WorkerSend 0,
      SinkReceive,
      WorkerReceive 0, MainClose, SinkReceive, MainDone]"

text \<open>
  The first row is sent, then the context is cancelled; the worker receives the task,
  finds the context done and returns; the source takes the \<^verbatim>\<open>Done\<close> case for the second
  row.
\<close>

definition dropped_schedule :: "event list" where
  "dropped_schedule =
     [SourceSend, Cancel, WorkerReceive 0, WorkerSelect 0, SourceCancelled, SourceClose,
      MainClose, SinkCancelled, MainDone]"

text \<open>
  The context is cancelled before the first row; the source takes the \<^verbatim>\<open>Done\<close> case for
  it, and at the second row, where both cases of the \<^verbatim>\<open>select\<close> are ready, the send.
\<close>

definition late_send_schedule :: "event list" where
  "late_send_schedule = [Cancel, SourceCancelled, SourceSend]"

text \<open>A result that carries an error and a token count, waiting in the result channel.\<close>

definition failed_result :: ProcessingResult where
  "failed_result =
     \<lparr>RowIndex = 0, RowData = Map.empty, Results = Map.empty,
      Error = Some (GoError ''timeout''), Tokens = 5\<rparr>"

definition example_sink_state :: state where
  "example_sink_state =
     \<lparr>cancelled = False, next_row = 2, taskChan = [], taskChan_closed = True,
      workers = [Receiving], resultChan = [failed_result], resultChan_closed = False,
      enrichedRows = [[''x'', []], [''y'', []]],
      stats = \<lparr>TotalRows = 2, CompletedRows = 0, FailedRows = 0, TotalTokens = 0\<rparr>,
      processedCount = 0, sink = SinkRunning, main = MainWaiting,
      files = Map.empty, sent = [], applied = []\<rparr>"

text \<open>Three headers, a row of two cells, two target columns.\<close>

definition ragged_headers :: "string list" where
  "ragged_headers = [''a'', ''b'', ''c'']"

definition ragged_row :: "string list" where
  "ragged_row = [''x'', ''y'']"

definition two_specs :: "ColumnSpec list" where
  "two_specs = [\<lparr>Name = ''p'', DataType = ''string''\<rparr>, \<lparr>Name = ''q'', DataType = ''string''\<rparr>]"

definition ragged_cfg :: config where
  "ragged_cfg =
     \<lparr>cfg_headers = ragged_headers, cfg_rows = [ragged_row], cfg_columnSpecs = two_specs,
      cfg_workerCount = 1, cfg_batchSize = 100, cfg_outputFile = ''out.csv'',
      cfg_os_create = writable, cfg_files = Map.empty\<rparr>"

text \<open>The state in which the run without cancellation ends.\<close>

definition normal_final :: state where
  "normal_final = projr (processFullDataset example_cfg normal_schedule)"

section \<open>Properties of the column names\<close>

declare columnIndexToLetter_loop.simps [simp del]

lemma loop_unfold_nonneg:
  "0 \<le> index \<Longrightarrow> columnIndexToLetter_loop index result =
     columnIndexToLetter_loop (index div 26 - 1) (char_of (65 + index mod 26) # result)"
  by (subst columnIndexToLetter_loop.simps) simp

lemma loop_unfold_neg: "index < 0 \<Longrightarrow> columnIndexToLetter_loop index result = result"
  by (subst columnIndexToLetter_loop.simps) simp

lemma columnIndexToLetter_loop_acc:
  "columnIndexToLetter_loop index result = columnIndexToLetter_loop index [] @ result"
proof (induction "nat (index + 1)" arbitrary: index result rule: less_induct)
  case less
  show ?case
  proof (cases "0 \<le> index")
    case True
    let ?c = "char_of (65 + index mod 26) :: char"
    have smaller: "nat (index div 26 - 1 + 1) < nat (index + 1)"
      using True by auto
    have "columnIndexToLetter_loop index result = columnIndexToLetter_loop (index div 26 - 1) (?c # result)"
      using True by (rule loop_unfold_nonneg)
    also have "\<dots> = columnIndexToLetter_loop (index div 26 - 1) [] @ ?c # result"
      using less [OF smaller] .
    also have "\<dots> = (columnIndexToLetter_loop (index div 26 - 1) [] @ [?c]) @ result"
      by simp
    also have "columnIndexToLetter_loop (index div 26 - 1) [] @ [?c] = columnIndexToLetter_loop (index div 26 - 1) [?c]"
      using less [OF smaller, of "[?c]"] by simp
    also have "\<dots> = columnIndexToLetter_loop index []"
      using True by (simp add: loop_unfold_nonneg)
    finally show ?thesis .
  next
    case False
    then show ?thesis by (simp add: loop_unfold_neg)
  qed
qed

lemma columnIndexToLetter_neg: "index < 0 \<Longrightarrow> columnIndexToLetter index = []"
  by (simp add: columnIndexToLetter_def loop_unfold_neg)

lemma columnIndexToLetter_step:
  "0 \<le> index \<Longrightarrow> columnIndexToLetter index =
     columnIndexToLetter (index div 26 - 1) @ [char_of (65 + index mod 26)]"
  unfolding columnIndexToLetter_def
  by (subst loop_unfold_nonneg, assumption, subst columnIndexToLetter_loop_acc, rule refl)

lemma letter_digit_char_of: "0 \<le> d \<Longrightarrow> d < 26 \<Longrightarrow> letter_digit (char_of (65 + d)) = d + 1"
  by (simp add: letter_digit_def)

lemma bijective26_value_snoc: "bijective26_value (s @ [c]) = 26 * bijective26_value s + letter_digit c"
  by (simp add: bijective26_value_def)

lemma columnIndexToLetter_value: "-1 \<le> index \<Longrightarrow> bijective26_value (columnIndexToLetter index) = index + 1"
proof (induction "nat (index + 1)" arbitrary: index rule: less_induct)
  case less
  show ?case
  proof (cases "0 \<le> index")
    case True
    have smaller: "nat (index div 26 - 1 + 1) < nat (index + 1)" using True by auto
    have ge: "-1 \<le> index div 26 - 1" using True by simp
    have "bijective26_value (columnIndexToLetter index) = 26 * (index div 26 - 1 + 1) + (index mod 26 + 1)"
      using True less(1) [OF smaller ge]
      by (simp add: columnIndexToLetter_step bijective26_value_snoc letter_digit_char_of)
    then show ?thesis by simp
  next
    case False
    with less(2) have "index = -1" by simp
    then show ?thesis by (simp add: columnIndexToLetter_neg bijective26_value_def)
  qed
qed

lemma columnIndexToLetter_letters: "\<forall>c \<in> set (columnIndexToLetter index). is_column_letter c"
proof (induction "nat (index + 1)" arbitrary: index rule: less_induct)
  case less
  show ?case
  proof (cases "0 \<le> index")
    case True
    have smaller: "nat (index div 26 - 1 + 1) < nat (index + 1)" using True by auto
    show ?thesis
      using True less [OF smaller]
      by (simp add: columnIndexToLetter_step is_column_letter_def letter_digit_char_of)
  next
    case False
    then show ?thesis by (simp add: columnIndexToLetter_neg)
  qed
qed

section \<open>Preservation of the invariants\<close>

text \<open>A property that every step preserves holds along every schedule.\<close>

lemma run_invariant:
  assumes step: "\<And>e s s'. step cfg e s = Inr s' \<Longrightarrow> P s \<Longrightarrow> P s'"
  shows "run cfg es s = Inr s' \<Longrightarrow> P s \<Longrightarrow> P s'"
proof (induction es arbitrary: s)
  case Nil
  then show ?case by simp
next
  case (Cons e es)
  from Cons.prems(1) obtain s1 where s1: "step cfg e s = Inr s1" and r: "run cfg es s1 = Inr s'"
    by (auto split: sum.splits)
  from step [OF s1 Cons.prems(2)] have "P s1" .
  from Cons.IH [OF r this] show ?case .
qed

subsection \<open>Statistics\<close>

lemmas trans_defs =
     source_send_def source_cancelled_def source_close_def worker_receive_def worker_select_def worker_return_def
     worker_send_def main_close_def main_done_def sink_apply_def sink_receive_def sink_tick_def sink_cancelled_def
     checkpoint_def Let_def

lemma stats_inv_apply:
  "sink_apply cfg r s = Inr s' \<Longrightarrow> stats_inv cfg s \<Longrightarrow> stats_inv cfg s'"
  by (auto simp: sink_apply_def stats_inv_def update_stats_def succeeded_def checkpoint_def Let_def
      split: sum.splits if_splits)

lemma stats_inv_step:
  "step cfg e s = Inr s' \<Longrightarrow> stats_inv cfg s \<Longrightarrow> stats_inv cfg s'"
proof (cases e)
  case SinkReceive
  assume a: "step cfg e s = Inr s'" "stats_inv cfg s"
  show ?thesis
  proof (cases "resultChan s")
    case Nil
    with a SinkReceive show ?thesis
      by (auto simp: sink_receive_def stats_inv_def split: if_splits)
  next
    case (Cons r rest)
    with a SinkReceive have "sink_apply cfg r (s\<lparr>resultChan := rest\<rparr>) = Inr s'"
      by (auto simp: sink_receive_def split: if_splits)
    moreover have "stats_inv cfg (s\<lparr>resultChan := rest\<rparr>)"
      using a(2) by (simp add: stats_inv_def)
    ultimately show ?thesis by (rule stats_inv_apply)
  qed
qed (auto simp: trans_defs stats_inv_def split: if_splits list.splits worker.splits)

subsection \<open>The frame of the table\<close>

lemma write_results_frame:
  "write_results res k specs row = Inr row' \<Longrightarrow>
     length row' = length row \<and> (\<forall>j. j < k \<or> k + length specs \<le> j \<longrightarrow> row' ! j = row ! j)"
proof (induction specs arbitrary: k row)
  case Nil
  then show ?case by simp
next
  case (Cons spec specs)
  from Cons.prems have k: "k < length row"
    by (simp split: if_splits)
  let ?row1 = "row[k := (case res (Name spec) of Some v \<Rightarrow> v | None \<Rightarrow> [])]"
  from Cons.prems k have "write_results res (Suc k) specs ?row1 = Inr row'"
    by simp
  from Cons.IH [OF this] show ?case
    by auto
qed

lemma enrich_row_eq: "enrich_row n row = row @ replicate n []"
  by (simp add: enrich_row_def go_copy_def)

lemma frame_inv_apply:
  assumes "sink_apply cfg r s = Inr s'" and "frame_inv cfg s"
  shows "frame_inv cfg s'"
proof -
  let ?i = "nat (RowIndex r)"
  from assms(1) obtain enriched where
    upd: "update_enriched (cfg_headers cfg) (cfg_columnSpecs cfg) r (enrichedRows s) = Inr enriched"
    and s': "enrichedRows s' = enriched"
    by (auto simp: sink_apply_def checkpoint_def Let_def split: sum.splits if_splits)
  from upd obtain row' where
    i: "?i < length (enrichedRows s)"
    and w: "write_results (Results r) (length (cfg_headers cfg)) (cfg_columnSpecs cfg) (enrichedRows s ! ?i) = Inr row'"
    and e: "enriched = (enrichedRows s)[?i := row']"
    by (auto simp: update_enriched_def split: if_splits sum.splits)
  note fr = write_results_frame [OF w]
  show ?thesis
    unfolding frame_inv_def s' e
  proof (intro conjI allI impI)
    show "length ((enrichedRows s)[?i := row']) = length (cfg_rows cfg)"
      using assms(2) by (simp add: frame_inv_def)
  next
    fix k assume k: "k < length (cfg_rows cfg)"
    show "length ((enrichedRows s)[?i := row'] ! k) = length (cfg_rows cfg ! k) + length (cfg_columnSpecs cfg)"
      using assms(2) k i fr by (cases "k = ?i") (auto simp: frame_inv_def)
  next
    fix k j assume k: "k < length (cfg_rows cfg)"
      and j: "j < length (cfg_headers cfg) \<or> length (cfg_headers cfg) + length (cfg_columnSpecs cfg) \<le> j"
    show "(enrichedRows s)[?i := row'] ! k ! j = enrich_row (length (cfg_columnSpecs cfg)) (cfg_rows cfg ! k) ! j"
      using assms(2) k i fr j by (cases "k = ?i") (auto simp: frame_inv_def)
  qed
qed

lemma frame_inv_step:
  "step cfg e s = Inr s' \<Longrightarrow> frame_inv cfg s \<Longrightarrow> frame_inv cfg s'"
proof (cases e)
  case SinkReceive
  assume a: "step cfg e s = Inr s'" "frame_inv cfg s"
  show ?thesis
  proof (cases "resultChan s")
    case Nil
    with a SinkReceive show ?thesis
      by (auto simp: sink_receive_def frame_inv_def split: if_splits)
  next
    case (Cons r rest)
    with a SinkReceive have "sink_apply cfg r (s\<lparr>resultChan := rest\<rparr>) = Inr s'"
      by (auto simp: sink_receive_def split: if_splits)
    moreover have "frame_inv cfg (s\<lparr>resultChan := rest\<rparr>)"
      using a(2) by (simp add: frame_inv_def)
    ultimately show ?thesis by (rule frame_inv_apply)
  qed
qed (auto simp: trans_defs frame_inv_def split: if_splits list.splits worker.splits)

lemma init_frame_inv: "processFullDataset_init cfg = Inr s \<Longrightarrow> frame_inv cfg s"
  by (auto simp: processFullDataset_init_def frame_inv_def enrich_row_eq split: if_splits)

lemma init_stats_inv: "processFullDataset_init cfg = Inr s \<Longrightarrow> stats_inv cfg s"
  by (auto simp: processFullDataset_init_def stats_inv_def split: if_splits)

subsection \<open>Conservation of tasks\<close>

lemma held_update:
  "w < length ws \<Longrightarrow>
     sum_list (map held (ws[w := x])) + held (ws ! w) = sum_list (map held ws) + held x"
proof (induction ws arbitrary: w)
  case Nil
  then show ?case by simp
next
  case (Cons a ws)
  show ?case
  proof (cases w)
    case 0
    then show ?thesis by simp
  next
    case (Suc v)
    with Cons.prems have "v < length ws" by simp
    from Cons.IH [OF this] Suc show ?thesis by (simp add: ac_simps)
  qed
qed

lemma held_update_same:
  "w < length ws \<Longrightarrow> held x = held (ws ! w) \<Longrightarrow>
     sum_list (map held (ws[w := x])) = sum_list (map held ws)"
  using held_update [of w ws x] by simp

lemma held_update_empty:
  "w < length ws \<Longrightarrow> held (ws ! w) = {#} \<Longrightarrow>
     sum_list (map held (ws[w := x])) = sum_list (map held ws) + held x"
  using held_update [of w ws x] by simp

lemma held_update_drop:
  "w < length ws \<Longrightarrow> held x = {#} \<Longrightarrow>
     sum_list (map held (ws[w := x])) + held (ws ! w) = sum_list (map held ws)"
  using held_update [of w ws x] by simp

lemma held_result [simp]: "RowIndex (processWorker_result specs task outcome) = TaskRowIndex task"
  by (simp add: processWorker_result_def Let_def split: sum.splits)

lemma flow_inv_apply:
  "sink_apply cfg r s = Inr s' \<Longrightarrow>
     accounted s' = accounted s + {#RowIndex r#} \<and> sent s' = sent s \<and> next_row s' = next_row s \<and>
     cancelled s' = cancelled s"
  by (auto simp: sink_apply_def checkpoint_def accounted_def Let_def split: sum.splits if_splits)

lemma flow_inv_unchanged:
  assumes "accounted s' = accounted s" and "sent s' = sent s" and "next_row s' = next_row s"
    and "cancelled s' = cancelled s" and "flow_inv cfg s"
  shows "flow_inv cfg s'"
proof -
  have "sent_rows s' = sent_rows s"
    using assms(2) by (simp add: sent_rows_def)
  with assms show ?thesis
    unfolding flow_inv_def by simp
qed

lemma flow_inv_step:
  assumes st: "step cfg e s = Inr s'" and inv: "flow_inv cfg s"
  shows "flow_inv cfg s'"
proof (cases e)
  case Cancel
  with st inv show ?thesis
    by (auto simp: flow_inv_def accounted_def sent_rows_def)
next
  case SourceSend
  let ?n = "next_row s"
  define task where "task = \<lparr>TaskRowIndex = int ?n,
      TaskRowData = rowData_of (cfg_headers cfg) (cfg_rows cfg ! ?n)\<rparr>"
  from st SourceSend have g: "?n < length (cfg_rows cfg)"
    and s': "s' = s\<lparr>taskChan := taskChan s @ [task], sent := sent s @ [task], next_row := Suc ?n\<rparr>"
    by (auto simp: source_send_def Let_def task_def split: if_splits)
  have t: "TaskRowIndex task = int ?n"
    by (simp add: task_def)
  have sr: "sent_rows s' = sent_rows s @ [int ?n]"
    by (simp add: s' sent_rows_def t)
  have ac: "accounted s' = accounted s + {#int ?n#}"
    by (simp add: s' accounted_def t)
  have n: "next_row s' = Suc ?n" and c: "cancelled s' = cancelled s"
    by (simp_all add: s')
  from inv have below: "\<forall>i \<in> set (sent_rows s). 0 \<le> i \<and> i < int ?n"
    and srt: "sorted_wrt (<) (sent_rows s)"
    and sub: "accounted s \<subseteq># mset (sent_rows s)"
    and full: "\<not> cancelled s \<longrightarrow>
        accounted s = mset (sent_rows s) \<and> sent_rows s = map int [0..<?n]"
    by (simp_all add: flow_inv_def)
  show ?thesis
    unfolding flow_inv_def sr ac n c
  proof (intro conjI impI)
    show "Suc ?n \<le> length (cfg_rows cfg)" using g by simp
    show "sorted_wrt (<) (sent_rows s @ [int ?n])"
      using srt below by (simp add: sorted_wrt_append)
    show "\<forall>i \<in> set (sent_rows s @ [int ?n]). 0 \<le> i \<and> i < int (Suc ?n)"
      using below by auto
    show "accounted s + {#int ?n#} \<subseteq># mset (sent_rows s @ [int ?n])"
      using sub by simp
    show "accounted s + {#int ?n#} = mset (sent_rows s @ [int ?n])" if "\<not> cancelled s"
      using full that by simp
    show "sent_rows s @ [int ?n] = map int [0..<Suc ?n]" if "\<not> cancelled s"
      using full that by simp
  qed
next
  case SourceCancelled
  with st have g: "next_row s < length (cfg_rows cfg)" "cancelled s"
    and s': "s' = s\<lparr>next_row := Suc (next_row s)\<rparr>"
    by (auto simp: source_cancelled_def split: if_splits)
  have "sent_rows s' = sent_rows s" "accounted s' = accounted s" "cancelled s'"
    "next_row s' = Suc (next_row s)"
    using g by (simp_all add: s' sent_rows_def accounted_def)
  with inv g show ?thesis
    unfolding flow_inv_def by force
next
  case SourceClose
  with st inv show ?thesis
    by (auto simp: source_close_def flow_inv_def accounted_def sent_rows_def split: if_splits)
next
  case (WorkerReceive w)
  with st have "accounted s' = accounted s \<and> sent s' = sent s \<and> next_row s' = next_row s \<and>
     cancelled s' = cancelled s"
    by (auto simp: worker_receive_def accounted_def held_update_empty
        split: if_splits list.splits worker.splits)
  with inv show ?thesis by (simp add: flow_inv_unchanged)
next
  case (WorkerSelect w)
  show ?thesis
  proof (cases "cancelled s")
    case False
    with st WorkerSelect have "accounted s' = accounted s \<and> sent s' = sent s \<and> next_row s' = next_row s \<and>
       cancelled s' = cancelled s"
      by (auto simp: worker_select_def accounted_def held_update_same
          split: if_splits list.splits worker.splits)
    with inv show ?thesis by (simp add: flow_inv_unchanged)
  next
    case True
    with st WorkerSelect obtain task where w: "w < length (workers s)" "workers s ! w = Selecting task"
      and s': "s' = s\<lparr>workers := (workers s)[w := Exited]\<rparr>"
      by (auto simp: worker_select_def split: if_splits worker.splits)
    have "accounted s' + held (workers s ! w) = accounted s"
      using held_update_drop [OF w(1), of Exited] by (simp add: s' accounted_def)
    then have "accounted s' \<subseteq># accounted s"
      by (metis mset_subset_eq_add_left)
    with inv True show ?thesis
      by (auto simp: flow_inv_def sent_rows_def s' intro: subset_mset.order_trans)
  qed
next
  case (WorkerReturn w outcome)
  with st have "accounted s' = accounted s \<and> sent s' = sent s \<and> next_row s' = next_row s \<and>
     cancelled s' = cancelled s"
    by (auto simp: worker_return_def accounted_def held_update_same
        split: if_splits list.splits worker.splits)
  with inv show ?thesis by (simp add: flow_inv_unchanged)
next
  case (WorkerSend w)
  with st obtain r where w: "w < length (workers s)" "workers s ! w = Sending r"
      and s': "s' = s\<lparr>resultChan := resultChan s @ [r], workers := (workers s)[w := Receiving]\<rparr>"
    by (auto simp: worker_send_def split: if_splits worker.splits)
  have "sum_list (map held ((workers s)[w := Receiving])) + {#RowIndex r#} = sum_list (map held (workers s))"
    using held_update_drop [OF w(1), of Receiving] w(2) by simp
  then have "accounted s' = accounted s"
    by (simp add: s' accounted_def)
  with inv show ?thesis by (simp add: flow_inv_unchanged s')
next
  case MainClose
  with st inv show ?thesis
    by (auto simp: main_close_def flow_inv_def accounted_def sent_rows_def split: if_splits)
next
  case MainDone
  with st inv show ?thesis
    by (auto simp: main_done_def flow_inv_def accounted_def sent_rows_def split: if_splits)
next
  case SinkReceive
  show ?thesis
  proof (cases "resultChan s")
    case Nil
    with st SinkReceive inv show ?thesis
      by (auto simp: sink_receive_def flow_inv_def accounted_def sent_rows_def split: if_splits)
  next
    case (Cons r rest)
    with st SinkReceive have "sink_apply cfg r (s\<lparr>resultChan := rest\<rparr>) = Inr s'"
      by (auto simp: sink_receive_def split: if_splits)
    from flow_inv_apply [OF this] Cons have "accounted s' = accounted s \<and> sent s' = sent s \<and>
        next_row s' = next_row s \<and> cancelled s' = cancelled s"
      by (simp add: accounted_def)
    with inv show ?thesis by (simp add: flow_inv_unchanged)
  qed
next
  case SinkTick
  with st inv show ?thesis
    by (auto simp: sink_tick_def checkpoint_def flow_inv_def accounted_def sent_rows_def split: if_splits)
next
  case SinkCancelled
  with st inv show ?thesis
    by (auto simp: sink_cancelled_def checkpoint_def flow_inv_def accounted_def sent_rows_def split: if_splits)
qed

lemma sum_list_replicate_empty [simp]: "sum_list (replicate n ({#} :: int multiset)) = {#}"
  by (induction n) auto

lemma init_flow_inv: "processFullDataset_init cfg = Inr s \<Longrightarrow> flow_inv cfg s"
  by (auto simp: processFullDataset_init_def flow_inv_def accounted_def sent_rows_def split: if_splits)

subsection \<open>Positions of the goroutines\<close>

lemma ctrl_inv_apply:
  "sink_apply cfg r s = Inr s' \<Longrightarrow>
     workers s' = workers s \<and> taskChan s' = taskChan s \<and> taskChan_closed s' = taskChan_closed s \<and>
     next_row s' = next_row s \<and> resultChan s' = resultChan s \<and>
     resultChan_closed s' = resultChan_closed s \<and> main s' = main s \<and> sink s' = sink s \<and>
     cancelled s' = cancelled s"
  by (auto simp: sink_apply_def checkpoint_def Let_def split: sum.splits if_splits)

lemma ctrl_inv_worker_update:
  assumes inv: "ctrl_inv cfg s" and w: "w < length (workers s)" and ne: "\<not> exited (workers s ! w)"
    and ws: "workers s' = (workers s)[w := x]"
    and same: "next_row s' = next_row s" "taskChan_closed s' = taskChan_closed s"
      "resultChan_closed s' = resultChan_closed s" "main s' = main s" "sink s' = sink s"
      "cancelled s' = cancelled s"
    and tc: "length (taskChan s') \<le> length (taskChan s)"
    and x: "exited x \<Longrightarrow> \<not> cancelled s \<Longrightarrow> taskChan s' = [] \<and> taskChan_closed s"
  shows "ctrl_inv cfg s'"
proof -
  from inv w ne have open_: "\<not> resultChan_closed s"
    unfolding ctrl_inv_def by blast
  with inv have waiting: "main s = MainWaiting"
    unfolding ctrl_inv_def by blast
  from inv open_ have running: "\<not> cancelled s \<Longrightarrow> sink s = SinkRunning"
    unfolding ctrl_inv_def by blast
  have others: "taskChan s' = [] \<and> taskChan_closed s"
    if "\<not> cancelled s" and "v < length (workers s)" and "exited ((workers s)[w := x] ! v)" for v
  proof (cases "v = w")
    case True
    with that w have "exited x" by simp
    from x [OF this that(1)] show ?thesis .
  next
    case False
    with that have "exited (workers s ! v)" by simp
    with inv that have "taskChan s = [] \<and> taskChan_closed s"
      unfolding ctrl_inv_def by blast
    with tc show ?thesis by simp
  qed
  show ?thesis
    unfolding ctrl_inv_def ws same
  proof (intro conjI impI)
    show "length ((workers s)[w := x]) = nat (cfg_workerCount cfg)"
      using inv by (simp add: ctrl_inv_def)
    show "length (taskChan s') \<le> chan_cap cfg"
      using inv tc by (simp add: ctrl_inv_def)
    show "next_row s = length (cfg_rows cfg)" if "taskChan_closed s"
      using inv that by (simp add: ctrl_inv_def)
    show "\<forall>v<length ((workers s)[w := x]). exited ((workers s)[w := x] ! v)" if "resultChan_closed s"
      using that open_ by simp
    show "resultChan_closed s" if "main s \<noteq> MainWaiting"
      using that waiting by simp
    show "sink s = SinkReturned" if "main s = MainReturned"
      using that waiting by simp
    show "taskChan s' = []" if "\<not> cancelled s"
      and "\<exists>v<length ((workers s)[w := x]). exited ((workers s)[w := x] ! v)"
      using that others by auto
    show "taskChan_closed s" if "\<not> cancelled s"
      and "\<exists>v<length ((workers s)[w := x]). exited ((workers s)[w := x] ! v)"
      using that others by auto
    show "resultChan s' = []" if "\<not> cancelled s" and "sink s \<noteq> SinkRunning"
      using that running by simp
    show "resultChan_closed s" if "\<not> cancelled s" and "sink s \<noteq> SinkRunning"
      using that running by simp
  qed
qed

lemma ctrl_inv_other_update:
  assumes inv: "ctrl_inv cfg s"
    and same: "workers s' = workers s" "next_row s' = next_row s"
      "taskChan_closed s' = taskChan_closed s" "taskChan s' = taskChan s"
      "resultChan_closed s' = resultChan_closed s" "main s' = main s" "sink s' = sink s"
    and c: "cancelled s \<Longrightarrow> cancelled s'"
    and rc: "resultChan s = [] \<Longrightarrow> resultChan s' = []"
  shows "ctrl_inv cfg s'"
  using inv c rc unfolding ctrl_inv_def same by blast

lemma ctrl_inv_step:
  assumes st: "step cfg e s = Inr s'" and inv: "ctrl_inv cfg s"
  shows "ctrl_inv cfg s'"
proof (cases e)
  case Cancel
  with st have "s' = s\<lparr>cancelled := True\<rparr>" by simp
  with inv show ?thesis by (intro ctrl_inv_other_update [OF inv]) simp_all
next
  case SourceSend
  with st have g: "next_row s < length (cfg_rows cfg)" "length (taskChan s) < chan_cap cfg"
    and s': "workers s' = workers s" "next_row s' = Suc (next_row s)"
      "taskChan_closed s' = taskChan_closed s" "length (taskChan s') = Suc (length (taskChan s))"
      "resultChan_closed s' = resultChan_closed s" "main s' = main s" "sink s' = sink s"
      "cancelled s' = cancelled s" "resultChan s' = resultChan s"
    by (auto simp: source_send_def Let_def split: if_splits)
  from inv g have "\<not> taskChan_closed s"
    unfolding ctrl_inv_def by auto
  with inv g show ?thesis
    unfolding ctrl_inv_def s' by auto
next
  case SourceCancelled
  with st have g: "next_row s < length (cfg_rows cfg)" "cancelled s"
    and s': "s' = s\<lparr>next_row := Suc (next_row s)\<rparr>"
    by (auto simp: source_cancelled_def split: if_splits)
  from inv g have "\<not> taskChan_closed s"
    unfolding ctrl_inv_def by auto
  with inv g show ?thesis
    unfolding ctrl_inv_def s' by simp
next
  case SourceClose
  with st have g: "next_row s = length (cfg_rows cfg)"
    and s': "s' = s\<lparr>taskChan_closed := True\<rparr>"
    by (auto simp: source_close_def split: if_splits)
  from inv g show ?thesis
    unfolding ctrl_inv_def s' by simp
next
  case (WorkerReceive w)
  with st have w: "w < length (workers s)" and r: "workers s ! w = Receiving"
    by (auto simp: worker_receive_def split: if_splits worker.splits)
  show ?thesis
  proof (cases "taskChan s")
    case Nil
    with st WorkerReceive w r have "taskChan_closed s" and "s' = s\<lparr>workers := (workers s)[w := Exited]\<rparr>"
      by (auto simp: worker_receive_def split: if_splits)
    with Nil show ?thesis
      by (intro ctrl_inv_worker_update [OF inv w, where x = Exited]) (simp_all add: r)
  next
    case (Cons task rest)
    with st WorkerReceive w r
    have "s' = s\<lparr>taskChan := rest, workers := (workers s)[w := Selecting task]\<rparr>"
      by (auto simp: worker_receive_def split: if_splits)
    with Cons show ?thesis
      by (intro ctrl_inv_worker_update [OF inv w, where x = "Selecting task"]) (simp_all add: r)
  qed
next
  case (WorkerSelect w)
  with st obtain task where w: "w < length (workers s)" and r: "workers s ! w = Selecting task"
    and s': "s' = s\<lparr>workers := (workers s)[w := (if cancelled s then Exited else Processing task)]\<rparr>"
    by (auto simp: worker_select_def split: if_splits worker.splits)
  show ?thesis
    by (intro ctrl_inv_worker_update [OF inv w,
          where x = "if cancelled s then Exited else Processing task"])
      (simp_all add: r s')
next
  case (WorkerReturn w outcome)
  with st obtain task where w: "w < length (workers s)" and r: "workers s ! w = Processing task"
    and s': "s' = s\<lparr>workers := (workers s)
                [w := Sending (processWorker_result (cfg_columnSpecs cfg) task outcome)]\<rparr>"
    by (auto simp: worker_return_def split: if_splits worker.splits)
  show ?thesis
    by (intro ctrl_inv_worker_update [OF inv w,
          where x = "Sending (processWorker_result (cfg_columnSpecs cfg) task outcome)"])
      (simp_all add: r s')
next
  case (WorkerSend w)
  with st obtain result where w: "w < length (workers s)" and r: "workers s ! w = Sending result"
    and s': "s' = s\<lparr>resultChan := resultChan s @ [result], workers := (workers s)[w := Receiving]\<rparr>"
    by (auto simp: worker_send_def split: if_splits worker.splits)
  show ?thesis
    by (intro ctrl_inv_worker_update [OF inv w, where x = Receiving]) (simp_all add: r s')
next
  case MainClose
  with st have g: "main s = MainWaiting" "list_all exited (workers s)"
    and s': "s' = s\<lparr>resultChan_closed := True, main := MainAwaitDone\<rparr>"
    by (auto simp: main_close_def split: if_splits)
  from inv g show ?thesis
    unfolding ctrl_inv_def s' by (simp add: list_all_length)
next
  case MainDone
  with st have g: "main s = MainAwaitDone" "sink s = SinkSignalling"
    and s': "s' = s\<lparr>main := MainReturned, sink := SinkReturned\<rparr>"
    by (auto simp: main_done_def split: if_splits)
  from inv g show ?thesis
    unfolding ctrl_inv_def s' by simp
next
  case SinkReceive
  with st have run: "sink s = SinkRunning"
    by (auto simp: sink_receive_def split: if_splits)
  show ?thesis
  proof (cases "resultChan s")
    case Nil
    with st SinkReceive have g: "resultChan_closed s" and s': "s' = s\<lparr>sink := SinkSignalling\<rparr>"
      by (auto simp: sink_receive_def split: if_splits)
    from inv g Nil run show ?thesis
      unfolding ctrl_inv_def s' by auto
  next
    case (Cons r rest)
    with st SinkReceive have "sink_apply cfg r (s\<lparr>resultChan := rest\<rparr>) = Inr s'"
      by (auto simp: sink_receive_def split: if_splits)
    from ctrl_inv_apply [OF this] Cons show ?thesis
      by (intro ctrl_inv_other_update [OF inv]) simp_all
  qed
next
  case SinkTick
  with st have "s' = checkpoint cfg s"
    by (auto simp: sink_tick_def split: if_splits)
  then show ?thesis
    by (intro ctrl_inv_other_update [OF inv]) (simp_all add: checkpoint_def)
next
  case SinkCancelled
  with st have g: "cancelled s" "sink s = SinkRunning"
    and s': "s' = (checkpoint cfg s)\<lparr>sink := SinkSignalling\<rparr>"
    by (auto simp: sink_cancelled_def split: if_splits)
  from inv g show ?thesis
    unfolding ctrl_inv_def s' by (auto simp: checkpoint_def)
qed

lemma init_ctrl_inv: "processFullDataset_init cfg = Inr s \<Longrightarrow> ctrl_inv cfg s"
  by (auto simp: processFullDataset_init_def ctrl_inv_def split: if_splits)

subsection \<open>Counting\<close>

lemma sint_of_nat_le: "sint (of_nat n :: 32 word) \<le> int n"
proof -
  have "sint (of_nat n :: 32 word) = signed_take_bit 31 (int n)"
    using sint_sbintrunc' [of "int n", where 'a = 32] by simp
  also have "\<dots> \<le> int n"
    by (simp add: signed_take_bit_int_less_eq_self_iff)
  finally show ?thesis .
qed

lemma strict_sorted_distinct: "sorted_wrt (<) (xs :: int list) \<Longrightarrow> distinct xs"
  by (simp add: strict_sorted_iff)

lemma bounded_distinct_length:
  assumes "distinct (xs :: int list)" and "\<forall>i \<in> set xs. 0 \<le> i \<and> i < int n"
  shows "length xs \<le> n"
proof -
  have "set xs \<subseteq> {0..<int n}" using assms(2) by auto
  then have "card (set xs) \<le> card {0..<int n}" by (intro card_mono) auto
  with assms(1) show ?thesis by (simp add: distinct_card)
qed

lemma submultiset_distinct:
  assumes "mset xs \<subseteq># mset ys" and "distinct ys"
  shows "distinct (xs :: int list)"
  unfolding distinct_count_atmost_1
proof (intro allI)
  fix a
  have "count (mset xs) a \<le> count (mset ys) a"
    using assms(1) by (rule mset_subset_eq_count)
  also have "\<dots> \<le> 1"
    using assms(2) by (simp add: distinct_count_atmost_1)
  finally have le: "count (mset xs) a \<le> 1" .
  show "count (mset xs) a = (if a \<in> set xs then 1 else 0)"
  proof (cases "a \<in> set xs")
    case True
    then have "0 < count (mset xs) a" by simp
    with le have "count (mset xs) a = 1" by linarith
    with True show ?thesis by simp
  next
    case False
    then show ?thesis by (simp add: count_eq_zero_iff)
  qed
qed

section \<open>Column names of the workbook writer\<close>

lemma columnIndexToLetter_nonempty: "0 \<le> index \<Longrightarrow> columnIndexToLetter index \<noteq> []"
  by (simp add: columnIndexToLetter_step)

lemma columnIndexToLetter_inj: "inj_on columnIndexToLetter {0..}"
proof (rule inj_onI)
  fix i j :: int
  assume "i \<in> {0..}" and "j \<in> {0..}" and eq: "columnIndexToLetter i = columnIndexToLetter j"
  then have "-1 \<le> i" and "-1 \<le> j" by simp_all
  then have "i + 1 = bijective26_value (columnIndexToLetter i)"
    and "j + 1 = bijective26_value (columnIndexToLetter j)"
    by (simp_all add: columnIndexToLetter_value)
  with eq show "i = j" by simp
qed

text \<open>
  Claim C10. For every column index that is not negative, \<^verbatim>\<open>columnIndexToLetter\<close> returns
  the spreadsheet name of the column: a non-empty word over the letters \<open>A\<close> to \<open>Z\<close> whose
  value as a bijective base-26 numeral is the index plus one; index 0 is \<open>A\<close>, 25 is \<open>Z\<close>,
  26 is \<open>AA\<close>, 701 is \<open>ZZ\<close> and 702 is \<open>AAA\<close>. Two different indices never get the same
  name, so the workbook writer never puts two columns of the table into one column of
  the sheet.
\<close>

theorem columnIndexToLetter_bijective_base26:
  "columnIndexToLetter 0 = ''A'' \<and> columnIndexToLetter 25 = ''Z'' \<and>
   columnIndexToLetter 26 = ''AA'' \<and> columnIndexToLetter 701 = ''ZZ'' \<and>
   columnIndexToLetter 702 = ''AAA'' \<and>
   (\<forall>n \<ge> 0. columnIndexToLetter n \<noteq> [] \<and>
      list_all is_column_letter (columnIndexToLetter n) \<and>
      bijective26_value (columnIndexToLetter n) = n + 1) \<and>
   (\<forall>m \<ge> 0. \<forall>n \<ge> 0. columnIndexToLetter m = columnIndexToLetter n \<longrightarrow> m = n)"
proof (intro conjI allI impI)
  show "columnIndexToLetter 0 = ''A''" by code_simp
  show "columnIndexToLetter 25 = ''Z''" by code_simp
  show "columnIndexToLetter 26 = ''AA''" by code_simp
  show "columnIndexToLetter 701 = ''ZZ''" by code_simp
  show "columnIndexToLetter 702 = ''AAA''" by code_simp
next
  fix n :: int assume "0 \<le> n"
  then show "columnIndexToLetter n \<noteq> []" by (rule columnIndexToLetter_nonempty)
  show "list_all is_column_letter (columnIndexToLetter n)"
    using columnIndexToLetter_letters [of n] by (simp add: list_all_iff)
  show "bijective26_value (columnIndexToLetter n) = n + 1"
    using \<open>0 \<le> n\<close> by (simp add: columnIndexToLetter_value)
next
  fix m n :: int
  assume "0 \<le> m" "0 \<le> n" "columnIndexToLetter m = columnIndexToLetter n"
  then show "m = n"
    using columnIndexToLetter_inj by (auto dest: inj_onD)
qed

theorem columnIndexToLetter_bijective_base26_witness:
  "(0::int) \<le> 27 \<and> (0::int) \<le> 53 \<and> columnIndexToLetter 27 = ''AB'' \<and>
   bijective26_value ''AB'' = 28 \<and> list_all is_column_letter ''AB'' \<and>
   columnIndexToLetter 27 \<noteq> columnIndexToLetter 53"
proof -
  have ab: "columnIndexToLetter 27 = ''AB''" by code_simp
  have h: "(0::int) \<le> 27" "(0::int) \<le> 53" by simp_all
  note cl = columnIndexToLetter_bijective_base26
  from cl h(1) have "list_all is_column_letter (columnIndexToLetter 27) \<and>
      bijective26_value (columnIndexToLetter 27) = 27 + 1"
    by blast
  moreover from cl h have "columnIndexToLetter 27 = columnIndexToLetter 53 \<longrightarrow> (27::int) = 53"
    by blast
  ultimately show ?thesis using ab by simp
qed

section \<open>Evaluating the examples\<close>

lemmas example_defs =
  example_cfg_def example_answer_def example_failure_def normal_schedule_def dropped_schedule_def
  late_send_schedule_def failed_result_def example_sink_state_def writable_def

lemmas eval_defs =
  processFullDataset_def processFullDataset_init_def trans_defs chan_cap_def
  update_enriched_def update_stats_def go_rem_def enrich_row_def go_copy_def
  processWorker_result_def saveProgress_def saveCSV_def saveExcel_def HasSuffix_def
  getColumnNames_def

lemma normal_final_run: "processFullDataset example_cfg normal_schedule = Inr normal_final"
  unfolding normal_final_def by (simp add: eval_defs example_defs)

section \<open>Reachable states satisfy the invariants\<close>

lemma reachable_invariants:
  assumes "processFullDataset cfg es = Inr s"
  shows "stats_inv cfg s \<and> frame_inv cfg s \<and> flow_inv cfg s \<and> ctrl_inv cfg s"
proof -
  from assms obtain s0 where i: "processFullDataset_init cfg = Inr s0" and r: "run cfg es s0 = Inr s"
    by (auto simp: processFullDataset_def split: sum.splits)
  have "stats_inv cfg s"
    using r init_stats_inv [OF i] by (rule run_invariant [rotated]) (rule stats_inv_step)
  moreover have "frame_inv cfg s"
    using r init_frame_inv [OF i] by (rule run_invariant [rotated]) (rule frame_inv_step)
  moreover have "flow_inv cfg s"
    using r init_flow_inv [OF i] by (rule run_invariant [rotated]) (rule flow_inv_step)
  moreover have "ctrl_inv cfg s"
    using r init_ctrl_inv [OF i] by (rule run_invariant [rotated]) (rule ctrl_inv_step)
  ultimately show ?thesis by simp
qed

section \<open>Failed rows become data\<close>





section \<open>Cost accounting in the sink\<close>




section \<open>Checkpoints\<close>





text \<open>
  Claim C4, as stated, fails: when the sink's receive finds the result channel closed it
  signals completion at once. In the run without cancellation the caller returns and no
  checkpoint file has been written, although every file could be created; in the cancelled
  run the checkpoint file is there.
\<close>

theorem no_checkpoint_when_result_channel_closes:
  "map_sum id main (processFullDataset example_cfg normal_schedule) = Inr MainReturned \<and>
   map_sum id cancelled (processFullDataset example_cfg normal_schedule) = Inr False \<and>
   map_sum id (checkpoint_file example_cfg) (processFullDataset example_cfg normal_schedule)
     = Inr None \<and>
   map_sum id (checkpoint_file example_cfg) (processFullDataset example_cfg dropped_schedule)
     = Inr (Some (CsvFile [[''h'', ''c''], [''x'', []], [''y'', []]]))"
  by (simp add: eval_defs example_defs checkpoint_file_def)

text \<open>
  Claim C4, amended. When the sink's loop ends because the cancellation signal fires, the
  sink writes one final checkpoint and then signals completion; when it ends because the
  result channel is closed, it signals completion without writing a checkpoint. The caller
  returns only after the sink has signalled.
\<close>

theorem sink_final_checkpoint_on_cancel_only:
  "(sink s = SinkRunning \<and> cancelled s \<longrightarrow>
      step cfg SinkCancelled s = Inr ((checkpoint cfg s)\<lparr>sink := SinkSignalling\<rparr>)) \<and>
   (sink s = SinkRunning \<and> resultChan s = [] \<and> resultChan_closed s \<longrightarrow>
      step cfg SinkReceive s = Inr (s\<lparr>sink := SinkSignalling\<rparr>)) \<and>
   files (checkpoint cfg s) =
      saveProgress (cfg_os_create cfg) (cfg_outputFile cfg) (cfg_headers cfg) (enrichedRows s)
        (cfg_columnSpecs cfg) (files s) \<and>
   (step cfg MainDone s = Inr s' \<longrightarrow> sink s = SinkSignalling \<and> main s' = MainReturned)"
  by (auto simp: sink_cancelled_def sink_receive_def checkpoint_def main_done_def split: if_splits)

theorem sink_final_checkpoint_on_cancel_only_witness:
  "sink (example_sink_state\<lparr>cancelled := True\<rparr>) = SinkRunning \<and>
   cancelled (example_sink_state\<lparr>cancelled := True\<rparr>) \<and>
   map_sum id (checkpoint_file example_cfg)
     (step example_cfg SinkCancelled (example_sink_state\<lparr>cancelled := True\<rparr>))
     = Inr (Some (CsvFile [[''h'', ''c''], [''x'', []], [''y'', []]])) \<and>
   sink (example_sink_state\<lparr>resultChan := [], resultChan_closed := True\<rparr>) = SinkRunning \<and>
   map_sum id (checkpoint_file example_cfg)
     (step example_cfg SinkReceive (example_sink_state\<lparr>resultChan := [], resultChan_closed := True\<rparr>))
     = Inr None \<and>
   map_sum id sink
     (step example_cfg SinkReceive (example_sink_state\<lparr>resultChan := [], resultChan_closed := True\<rparr>))
     = Inr SinkSignalling"
proof -
  let ?c = "example_sink_state\<lparr>cancelled := True\<rparr>"
  let ?d = "example_sink_state\<lparr>resultChan := [], resultChan_closed := True\<rparr>"
  have hc: "sink ?c = SinkRunning \<and> cancelled ?c"
    by (simp add: example_sink_state_def)
  have hd: "sink ?d = SinkRunning \<and> resultChan ?d = [] \<and> resultChan_closed ?d"
    by (simp add: example_sink_state_def)
  from sink_final_checkpoint_on_cancel_only [of ?c example_cfg] hc
  have c: "step example_cfg SinkCancelled ?c = Inr ((checkpoint example_cfg ?c)\<lparr>sink := SinkSignalling\<rparr>)"
    by blast
  from sink_final_checkpoint_on_cancel_only [of ?d example_cfg] hd
  have d: "step example_cfg SinkReceive ?d = Inr (?d\<lparr>sink := SinkSignalling\<rparr>)"
    by blast
  have fc: "checkpoint_file example_cfg ((checkpoint example_cfg ?c)\<lparr>sink := SinkSignalling\<rparr>)
      = Some (CsvFile [[''h'', ''c''], [''x'', []], [''y'', []]])"
    by (simp add: checkpoint_file_def checkpoint_def eval_defs example_defs)
  have fd: "checkpoint_file example_cfg (?d\<lparr>sink := SinkSignalling\<rparr>) = None"
    by (simp add: checkpoint_file_def example_defs)
  show ?thesis
    unfolding c d using hc hd fc fd by simp
qed

section \<open>The task source under cancellation\<close>

text \<open>
  Claim C2 does not hold of the code. The context is cancelled, the source takes the
  \<^verbatim>\<open>Done\<close> case at row 0 and sends nothing; its \<^verbatim>\<open>break\<close> leaves the \<^verbatim>\<open>select\<close> and not the
  loop, so the loop goes on to row 1, where the send case is ready as well and the task of
  row 1 is sent.
\<close>

theorem source_sends_after_observing_cancellation:
  "map_sum id cancelled (processFullDataset example_cfg [Cancel, SourceCancelled]) = Inr True \<and>
   map_sum id sent_rows (processFullDataset example_cfg [Cancel, SourceCancelled]) = Inr [] \<and>
   map_sum id next_row (processFullDataset example_cfg [Cancel, SourceCancelled]) = Inr 1 \<and>
   late_send_schedule = [Cancel, SourceCancelled] @ [SourceSend] \<and>
   map_sum id sent_rows (processFullDataset example_cfg late_send_schedule) = Inr [1] \<and>
   map_sum id (map TaskRowIndex \<circ> taskChan) (processFullDataset example_cfg late_send_schedule)
     = Inr [1]"
  by (simp add: eval_defs example_defs sent_rows_def)

section \<open>Bounds of the sink's writes\<close>

lemma write_results_ok_iff:
  "(\<exists>row'. write_results res k specs row = Inr row') \<longleftrightarrow> specs = [] \<or> k + length specs \<le> length row"
proof (induction specs arbitrary: k row)
  case Nil
  then show ?case by simp
next
  case (Cons spec specs)
  show ?case
  proof (cases "k < length row")
    case True
    then show ?thesis
      using Cons.IH [of "Suc k" "row[k := (case res (Name spec) of Some v \<Rightarrow> v | None \<Rightarrow> [])]"]
      by (cases specs) auto
  next
    case False
    then show ?thesis by simp
  qed
qed

lemma write_results_panic:
  "write_results res k specs row = Inl p \<Longrightarrow> p = IndexOutOfRange"
  by (induction specs arbitrary: k row) (auto split: if_splits)

text \<open>
  Claim C9, as stated, fails in its last part: for a row with fewer cells than headers it
  is not always the first write that is out of range. With three headers, a row of two
  cells and two target columns the slice has four cells; the first write, at index 3, is
  in range, and the second one panics.
\<close>

theorem first_write_of_short_row_in_bounds:
  "length ragged_row < length ragged_headers \<and>
   write_results Map.empty (length ragged_headers) [hd two_specs]
       (enrich_row (length two_specs) ragged_row) = Inr [''x'', ''y'', [], []] \<and>
   write_results Map.empty (length ragged_headers) two_specs
       (enrich_row (length two_specs) ragged_row) = Inl IndexOutOfRange"
  by (simp add: ragged_headers_def ragged_row_def two_specs_def enrich_row_def go_copy_def)

text \<open>
  Claim C9, amended. In every state of a run, the output row of an input row has as many
  cells as the input row plus the target columns. With at least one target column, the
  sink's writes for a Result of that row are all in range exactly when the input row has
  at least as many cells as there are headers; otherwise the update panics with an index
  out of range. The first write itself is out of range exactly when the row is short by
  at least the number of target columns.
\<close>

theorem sink_write_in_bounds_iff:
  assumes "processFullDataset cfg es = Inr s"
    and "cfg_columnSpecs cfg \<noteq> []"
    and "0 \<le> RowIndex r" and "RowIndex r < int (length (cfg_rows cfg))"
  shows
    "length (enrichedRows s ! nat (RowIndex r)) =
       length (cfg_rows cfg ! nat (RowIndex r)) + length (cfg_columnSpecs cfg) \<and>
     ((\<exists>enriched. update_enriched (cfg_headers cfg) (cfg_columnSpecs cfg) r (enrichedRows s)
          = Inr enriched)
        \<longleftrightarrow> length (cfg_headers cfg) \<le> length (cfg_rows cfg ! nat (RowIndex r))) \<and>
     (update_enriched (cfg_headers cfg) (cfg_columnSpecs cfg) r (enrichedRows s)
          = Inl IndexOutOfRange
        \<longleftrightarrow> length (cfg_rows cfg ! nat (RowIndex r)) < length (cfg_headers cfg)) \<and>
     (write_results (Results r) (length (cfg_headers cfg)) [hd (cfg_columnSpecs cfg)]
          (enrichedRows s ! nat (RowIndex r)) = Inl IndexOutOfRange
        \<longleftrightarrow> length (cfg_rows cfg ! nat (RowIndex r)) + length (cfg_columnSpecs cfg)
              \<le> length (cfg_headers cfg))"
proof -
  let ?i = "nat (RowIndex r)"
  let ?row = "enrichedRows s ! ?i"
  let ?w = "write_results (Results r) (length (cfg_headers cfg)) (cfg_columnSpecs cfg) ?row"
  from reachable_invariants [OF assms(1)] have fr: "frame_inv cfg s" by simp
  from assms(3,4) have i: "?i < length (cfg_rows cfg)" by simp
  with fr have len: "length ?row = length (cfg_rows cfg ! ?i) + length (cfg_columnSpecs cfg)"
    and n: "length (enrichedRows s) = length (cfg_rows cfg)"
    by (simp_all add: frame_inv_def)
  have ok: "(\<exists>row'. ?w = Inr row') \<longleftrightarrow> length (cfg_headers cfg) \<le> length (cfg_rows cfg ! ?i)"
    using assms(2) len by (simp add: write_results_ok_iff)
  have upd: "update_enriched (cfg_headers cfg) (cfg_columnSpecs cfg) r (enrichedRows s) =
      (case ?w of Inl p \<Rightarrow> Inl p | Inr row \<Rightarrow> Inr ((enrichedRows s)[?i := row]))"
    using assms(3,4) n by (simp add: update_enriched_def)
  have a: "(\<exists>enriched. update_enriched (cfg_headers cfg) (cfg_columnSpecs cfg) r (enrichedRows s)
          = Inr enriched) \<longleftrightarrow> length (cfg_headers cfg) \<le> length (cfg_rows cfg ! ?i)"
    unfolding upd using ok by (cases ?w) auto
  have b: "update_enriched (cfg_headers cfg) (cfg_columnSpecs cfg) r (enrichedRows s)
          = Inl IndexOutOfRange \<longleftrightarrow> length (cfg_rows cfg ! ?i) < length (cfg_headers cfg)"
    unfolding upd using ok write_results_panic [of "Results r" "length (cfg_headers cfg)"
        "cfg_columnSpecs cfg" ?row]
    by (cases ?w) auto
  have c: "write_results (Results r) (length (cfg_headers cfg)) [hd (cfg_columnSpecs cfg)] ?row
          = Inl IndexOutOfRange
        \<longleftrightarrow> length (cfg_rows cfg ! ?i) + length (cfg_columnSpecs cfg) \<le> length (cfg_headers cfg)"
    using len by auto
  from len a b c show ?thesis by blast
qed

theorem sink_write_in_bounds_iff_witness:
  "processFullDataset ragged_cfg [] = Inr (projr (processFullDataset ragged_cfg [])) \<and>
   cfg_columnSpecs ragged_cfg \<noteq> [] \<and> 0 \<le> RowIndex failed_result \<and>
   RowIndex failed_result < int (length (cfg_rows ragged_cfg)) \<and>
   length (cfg_rows ragged_cfg ! 0) < length (cfg_headers ragged_cfg) \<and>
   length (cfg_headers ragged_cfg) < length (cfg_rows ragged_cfg ! 0) + length (cfg_columnSpecs ragged_cfg) \<and>
   update_enriched (cfg_headers ragged_cfg) (cfg_columnSpecs ragged_cfg) failed_result
     (enrichedRows (projr (processFullDataset ragged_cfg []))) = Inl IndexOutOfRange \<and>
   write_results (Results failed_result) (length (cfg_headers ragged_cfg))
     [hd (cfg_columnSpecs ragged_cfg)]
     (enrichedRows (projr (processFullDataset ragged_cfg [])) ! 0) \<noteq> Inl IndexOutOfRange"
proof -
  have h1: "processFullDataset ragged_cfg [] = Inr (projr (processFullDataset ragged_cfg []))"
    by (simp add: processFullDataset_def processFullDataset_init_def ragged_cfg_def)
  have h2: "cfg_columnSpecs ragged_cfg \<noteq> []"
    by (simp add: ragged_cfg_def two_specs_def)
  have h3: "0 \<le> RowIndex failed_result"
    and h4: "RowIndex failed_result < int (length (cfg_rows ragged_cfg))"
    by (simp_all add: failed_result_def ragged_cfg_def)
  have z: "nat (RowIndex failed_result) = 0"
    by (simp add: failed_result_def)
  have short: "length (cfg_rows ragged_cfg ! 0) < length (cfg_headers ragged_cfg)"
    and long: "length (cfg_headers ragged_cfg)
       < length (cfg_rows ragged_cfg ! 0) + length (cfg_columnSpecs ragged_cfg)"
    by (simp_all add: ragged_cfg_def ragged_row_def ragged_headers_def two_specs_def)
  from sink_write_in_bounds_iff [OF h1 h2 h3 h4] short long h1 h2 h3 h4 show ?thesis
    unfolding z by simp
qed

section \<open>The frame of a Result application\<close>





section \<open>Counting tasks and results\<close>

lemma sint_of_nat_eq: "n < 2 ^ 31 \<Longrightarrow> sint (of_nat n :: 32 word) = int n"
proof -
  assume n: "n < 2 ^ 31"
  have "sint (of_nat n :: 32 word) = signed_take_bit 31 (int n)"
    using sint_sbintrunc' [of "int n", where 'a = 32] by simp
  also have "\<dots> = int n"
    using n by (simp add: signed_take_bit_int_eq_self)
  finally show ?thesis .
qed

lemma flow_inv_counts:
  assumes "flow_inv cfg s"
  shows "mset (applied_rows s) \<subseteq># mset (sent_rows s)"
    and "distinct (sent_rows s)" and "distinct (applied_rows s)"
    and "length (applied s) \<le> length (sent s)"
    and "length (sent s) \<le> length (cfg_rows cfg)"
    and "\<forall>i \<in> set (applied_rows s). 0 \<le> i \<and> i < int (length (cfg_rows cfg))"
proof -
  from assms have n: "next_row s \<le> length (cfg_rows cfg)"
    and srt: "sorted_wrt (<) (sent_rows s)"
    and below: "\<forall>i \<in> set (sent_rows s). 0 \<le> i \<and> i < int (next_row s)"
    and sub: "accounted s \<subseteq># mset (sent_rows s)"
    by (simp_all add: flow_inv_def)
  have "mset (applied_rows s) \<subseteq># accounted s"
    by (simp add: accounted_def applied_rows_def)
  from this sub show a: "mset (applied_rows s) \<subseteq># mset (sent_rows s)"
    by (rule subset_mset.order_trans)
  from srt show d: "distinct (sent_rows s)"
    by (rule strict_sorted_distinct)
  from a d show "distinct (applied_rows s)"
    by (rule submultiset_distinct)
  from a have "size (mset (applied_rows s)) \<le> size (mset (sent_rows s))"
    by (rule size_mset_mono)
  then show "length (applied s) \<le> length (sent s)"
    by (simp add: applied_rows_def sent_rows_def)
  from bounded_distinct_length [OF d below] n show "length (sent s) \<le> length (cfg_rows cfg)"
    by (simp add: sent_rows_def)
  from a have "set (applied_rows s) \<subseteq> set (sent_rows s)"
    by (metis set_mset_mono set_mset_mset)
  with below n show "\<forall>i \<in> set (applied_rows s). 0 \<le> i \<and> i < int (length (cfg_rows cfg))"
    by fastforce
qed

lemma stats_inv_counts:
  assumes "stats_inv cfg s"
  shows "CompletedRows (stats s) + FailedRows (stats s) = of_nat (length (applied s))"
    and "sint (CompletedRows (stats s)) + sint (FailedRows (stats s)) \<le> int (length (applied s))"
    and "sint (CompletedRows (stats s) + FailedRows (stats s)) \<le> int (length (applied s))"
    and "length (applied s) < 2 ^ 31 \<Longrightarrow>
      sint (CompletedRows (stats s)) + sint (FailedRows (stats s)) = int (length (applied s))"
proof -
  let ?c = "length (filter succeeded (applied s))"
  let ?f = "length (filter (\<lambda>r. \<not> succeeded r) (applied s))"
  from assms have c: "CompletedRows (stats s) = of_nat ?c" and f: "FailedRows (stats s) = of_nat ?f"
    by (simp_all add: stats_inv_def)
  have sum: "?c + ?f = length (applied s)"
    by (rule sum_length_filter_compl)
  show cf: "CompletedRows (stats s) + FailedRows (stats s) = of_nat (length (applied s))"
    unfolding c f by (simp flip: sum)
  have "sint (of_nat ?c :: 32 word) + sint (of_nat ?f :: 32 word) \<le> int ?c + int ?f"
    by (intro add_mono sint_of_nat_le)
  then show "sint (CompletedRows (stats s)) + sint (FailedRows (stats s)) \<le> int (length (applied s))"
    unfolding c f using sum by linarith
  show "sint (CompletedRows (stats s) + FailedRows (stats s)) \<le> int (length (applied s))"
    unfolding cf by (rule sint_of_nat_le)
  show "sint (CompletedRows (stats s)) + sint (FailedRows (stats s)) = int (length (applied s))"
    if "length (applied s) < 2 ^ 31"
  proof -
    from that sum have "?c < 2 ^ 31" "?f < 2 ^ 31" by linarith+
    then have "sint (of_nat ?c :: 32 word) = int ?c" "sint (of_nat ?f :: 32 word) = int ?f"
      by (simp_all add: sint_of_nat_eq)
    then show ?thesis unfolding c f using sum by linarith
  qed
qed

text \<open>
  Claim C7. In every state of a run the completed and failed counters, read as the signed
  32-bit numbers they are, sum to at most the total row count, and so does their 32-bit
  sum. Both counters are zero when the run starts, every Result the sink applies adds one
  to exactly one of them, and the Results applied so far belong to pairwise different rows
  of the input.
\<close>

theorem completed_plus_failed_at_most_total:
  assumes "processFullDataset cfg es = Inr s"
  shows
    "sint (CompletedRows (stats s)) + sint (FailedRows (stats s)) \<le> int (TotalRows (stats s)) \<and>
     sint (CompletedRows (stats s) + FailedRows (stats s)) \<le> int (TotalRows (stats s)) \<and>
     TotalRows (stats s) = length (cfg_rows cfg) \<and>
     (es = [] \<longrightarrow> CompletedRows (stats s) = 0 \<and> FailedRows (stats s) = 0) \<and>
     (\<forall>r s'. sink_apply cfg r s = Inr s' \<longrightarrow>
        (if Error r = None
         then CompletedRows (stats s') = CompletedRows (stats s) + 1 \<and>
              FailedRows (stats s') = FailedRows (stats s)
         else CompletedRows (stats s') = CompletedRows (stats s) \<and>
              FailedRows (stats s') = FailedRows (stats s) + 1)) \<and>
     distinct (applied_rows s) \<and>
     (\<forall>i \<in> set (applied_rows s). 0 \<le> i \<and> i < int (length (cfg_rows cfg))) \<and>
     length (applied s) \<le> length (cfg_rows cfg)"
proof -
  from reachable_invariants [OF assms] have st: "stats_inv cfg s" and fl: "flow_inv cfg s"
    by simp_all
  note f = flow_inv_counts [OF fl]
  note c = stats_inv_counts [OF st]
  from st have total: "TotalRows (stats s) = length (cfg_rows cfg)"
    by (simp add: stats_inv_def)
  from f(4,5) have n: "length (applied s) \<le> length (cfg_rows cfg)"
    by simp
  have zero: "CompletedRows (stats s) = 0 \<and> FailedRows (stats s) = 0" if "es = []"
    using assms that
    by (auto simp: processFullDataset_def processFullDataset_init_def split: sum.splits if_splits)
  have inc: "if Error r = None
         then CompletedRows (stats s') = CompletedRows (stats s) + 1 \<and>
              FailedRows (stats s') = FailedRows (stats s)
         else CompletedRows (stats s') = CompletedRows (stats s) \<and>
              FailedRows (stats s') = FailedRows (stats s) + 1"
    if "sink_apply cfg r s = Inr s'" for r s'
    using that
    by (auto simp: sink_apply_def update_stats_def checkpoint_def Let_def split: sum.splits if_splits)
  from c(2) n total
  have a: "sint (CompletedRows (stats s)) + sint (FailedRows (stats s)) \<le> int (TotalRows (stats s))"
    by linarith
  from c(3) n total
  have b: "sint (CompletedRows (stats s) + FailedRows (stats s)) \<le> int (TotalRows (stats s))"
    by linarith
  from a b total zero inc f(3) f(6) n show ?thesis
    by blast
qed

theorem completed_plus_failed_at_most_total_witness:
  "processFullDataset example_cfg normal_schedule = Inr normal_final \<and>
   sint (CompletedRows (stats normal_final)) + sint (FailedRows (stats normal_final)) \<le> 2 \<and>
   CompletedRows (stats normal_final) = 1 \<and> FailedRows (stats normal_final) = 1 \<and>
   distinct (applied_rows normal_final) \<and>
   sink_apply example_cfg failed_result normal_final
     = Inr (projr (sink_apply example_cfg failed_result normal_final)) \<and>
   FailedRows (stats (projr (sink_apply example_cfg failed_result normal_final))) = 2"
proof -
  let ?s' = "projr (sink_apply example_cfg failed_result normal_final)"
  note c = completed_plus_failed_at_most_total [OF normal_final_run]
  have a: "sink_apply example_cfg failed_result normal_final = Inr ?s'"
    unfolding normal_final_def by (simp add: eval_defs example_defs)
  have v: "CompletedRows (stats normal_final) = 1" "FailedRows (stats normal_final) = 1"
    unfolding normal_final_def by (simp_all add: eval_defs example_defs)
  have e: "Error failed_result \<noteq> None" "length (cfg_rows example_cfg) = 2"
    by (simp_all add: example_defs)
  from c e have le: "sint (CompletedRows (stats normal_final)) + sint (FailedRows (stats normal_final)) \<le> 2"
    by simp
  from c have d: "distinct (applied_rows normal_final)"
    by blast
  from c a have "if Error failed_result = None
         then CompletedRows (stats ?s') = CompletedRows (stats normal_final) + 1 \<and>
              FailedRows (stats ?s') = FailedRows (stats normal_final)
         else CompletedRows (stats ?s') = CompletedRows (stats normal_final) \<and>
              FailedRows (stats ?s') = FailedRows (stats normal_final) + 1"
    by blast
  with e v have f: "FailedRows (stats ?s') = 2"
    by simp
  from normal_final_run le v d a f show ?thesis by simp
qed

section \<open>Tasks and their Results\<close>

lemma exited_held: "\<forall>w < length ws. exited (ws ! w) \<Longrightarrow> sum_list (map held ws) = {#}"
proof (induction ws)
  case Nil
  then show ?case by simp
next
  case (Cons a ws)
  from Cons.prems have "exited a" by auto
  then have "held a = {#}" by (cases a) simp_all
  moreover from Cons.prems have "\<forall>w < length ws. exited (ws ! w)" by auto
  ultimately show ?case using Cons.IH by simp
qed

lemma returned_uncancelled:
  assumes fl: "flow_inv cfg s" and ct: "ctrl_inv cfg s"
    and ret: "main s = MainReturned" and nc: "\<not> cancelled s"
  shows "mset (applied_rows s) = mset (sent_rows s)"
    and "0 < cfg_workerCount cfg \<Longrightarrow> sent_rows s = map int [0..<length (cfg_rows cfg)]"
proof -
  from ct ret have closed: "resultChan_closed s" and sr: "sink s = SinkReturned"
    by (auto simp: ctrl_inv_def)
  with ct have ex: "\<forall>w < length (workers s). exited (workers s ! w)"
    by (simp add: ctrl_inv_def)
  from ct nc sr have rc: "resultChan s = []"
    by (simp add: ctrl_inv_def)
  from ct have lw: "length (workers s) = nat (cfg_workerCount cfg)"
    and cap: "length (taskChan s) \<le> chan_cap cfg"
    by (simp_all add: ctrl_inv_def)
  have tc: "taskChan s = []"
  proof (cases "0 < cfg_workerCount cfg")
    case True
    with lw ex have "\<exists>w < length (workers s). exited (workers s ! w)"
      by (intro exI [of _ 0]) simp
    with ct nc show ?thesis by (simp add: ctrl_inv_def)
  next
    case False
    with cap show ?thesis by (simp add: chan_cap_def)
  qed
  from fl nc have full: "accounted s = mset (sent_rows s)"
    and all: "sent_rows s = map int [0..<next_row s]"
    by (simp_all add: flow_inv_def)
  from full tc rc exited_held [OF ex] show "mset (applied_rows s) = mset (sent_rows s)"
    by (simp add: accounted_def applied_rows_def)
  show "sent_rows s = map int [0..<length (cfg_rows cfg)]" if w: "0 < cfg_workerCount cfg"
  proof -
    from w lw ex have "\<exists>w < length (workers s). exited (workers s ! w)"
      by (intro exI [of _ 0]) simp
    with ct nc have "taskChan_closed s" by (simp add: ctrl_inv_def)
    with ct have "next_row s = length (cfg_rows cfg)" by (simp add: ctrl_inv_def)
    with all show ?thesis by simp
  qed
qed

text \<open>
  Claim C1, as stated, fails under cancellation: a worker that has received a task and
  then finds the context done returns without a Result. In the example run the task of
  row 0 is sent, the run ends, and no Result was applied: both counters are zero.
\<close>

theorem dispatched_task_without_result:
  "map_sum id main (processFullDataset example_cfg dropped_schedule) = Inr MainReturned \<and>
   map_sum id cancelled (processFullDataset example_cfg dropped_schedule) = Inr True \<and>
   map_sum id sent_rows (processFullDataset example_cfg dropped_schedule) = Inr [0] \<and>
   map_sum id applied_rows (processFullDataset example_cfg dropped_schedule) = Inr [] \<and>
   map_sum id (CompletedRows \<circ> stats) (processFullDataset example_cfg dropped_schedule) = Inr 0 \<and>
   map_sum id (FailedRows \<circ> stats) (processFullDataset example_cfg dropped_schedule) = Inr 0"
  by (simp add: eval_defs example_defs sent_rows_def applied_rows_def)

text \<open>
  Claim C1, amended. In every state of a run every applied Result belongs to a task that
  was sent, no task has two Results applied, and the counters sum to the number of applied
  Results, which is at most the number of tasks sent. If the function returns and the
  context was never cancelled, every task that was sent has exactly one Result applied and
  completed plus failed is the number of tasks sent: as 32-bit counters always, as numbers
  when the table has fewer than \<open>2 ^ 31\<close> rows; with at least one worker these are the tasks
  of all rows.
\<close>

theorem results_match_dispatched_tasks:
  assumes "processFullDataset cfg es = Inr s"
  shows
    "mset (applied_rows s) \<subseteq># mset (sent_rows s) \<and>
     distinct (applied_rows s) \<and> distinct (sent_rows s) \<and>
     CompletedRows (stats s) + FailedRows (stats s) = of_nat (length (applied s)) \<and>
     sint (CompletedRows (stats s)) + sint (FailedRows (stats s)) \<le> int (length (sent s)) \<and>
     (main s = MainReturned \<and> \<not> cancelled s \<longrightarrow>
        mset (applied_rows s) = mset (sent_rows s) \<and>
        CompletedRows (stats s) + FailedRows (stats s) = of_nat (length (sent s)) \<and>
        (length (cfg_rows cfg) < 2 ^ 31 \<longrightarrow>
           sint (CompletedRows (stats s)) + sint (FailedRows (stats s)) = int (length (sent s))) \<and>
        (0 < cfg_workerCount cfg \<longrightarrow> sent_rows s = map int [0..<length (cfg_rows cfg)]))"
proof -
  from reachable_invariants [OF assms] have st: "stats_inv cfg s" and fl: "flow_inv cfg s"
    and ct: "ctrl_inv cfg s"
    by simp_all
  note f = flow_inv_counts [OF fl]
  note c = stats_inv_counts [OF st]
  from c(2) f(4)
  have le: "sint (CompletedRows (stats s)) + sint (FailedRows (stats s)) \<le> int (length (sent s))"
    by linarith
  have fin: "mset (applied_rows s) = mset (sent_rows s) \<and>
        CompletedRows (stats s) + FailedRows (stats s) = of_nat (length (sent s)) \<and>
        (length (cfg_rows cfg) < 2 ^ 31 \<longrightarrow>
           sint (CompletedRows (stats s)) + sint (FailedRows (stats s)) = int (length (sent s))) \<and>
        (0 < cfg_workerCount cfg \<longrightarrow> sent_rows s = map int [0..<length (cfg_rows cfg)])"
    if ret: "main s = MainReturned" and nc: "\<not> cancelled s"
  proof -
    note r = returned_uncancelled [OF fl ct ret nc]
    from r(1) have "size (mset (applied_rows s)) = size (mset (sent_rows s))"
      by simp
    then have len: "length (applied s) = length (sent s)"
      by (simp add: applied_rows_def sent_rows_def)
    have "sint (CompletedRows (stats s)) + sint (FailedRows (stats s)) = int (length (sent s))"
      if "length (cfg_rows cfg) < 2 ^ 31"
    proof -
      from that f(4,5) have "length (applied s) < 2 ^ 31" by linarith
      from c(4) [OF this] len show ?thesis by simp
    qed
    with r c(1) len show ?thesis by simp
  qed
  from f(1,2,3) c(1) le fin show ?thesis by blast
qed

theorem results_match_dispatched_tasks_witness:
  "processFullDataset example_cfg normal_schedule = Inr normal_final \<and>
   main normal_final = MainReturned \<and> \<not> cancelled normal_final \<and>
   length (cfg_rows example_cfg) < 2 ^ 31 \<and> 0 < cfg_workerCount example_cfg \<and>
   sent_rows normal_final = [0, 1] \<and>
   mset (applied_rows normal_final) = mset (sent_rows normal_final) \<and>
   sint (CompletedRows (stats normal_final)) + sint (FailedRows (stats normal_final)) = 2"
proof -
  note c = results_match_dispatched_tasks [OF normal_final_run]
  have h: "main normal_final = MainReturned" "\<not> cancelled normal_final"
    unfolding normal_final_def by (simp_all add: eval_defs example_defs)
  have g: "length (cfg_rows example_cfg) < 2 ^ 31" "0 < cfg_workerCount example_cfg"
    "length (cfg_rows example_cfg) = 2"
    by (simp_all add: example_defs)
  from c h g(1,2) have m: "mset (applied_rows normal_final) = mset (sent_rows normal_final)"
    and n: "sint (CompletedRows (stats normal_final)) + sint (FailedRows (stats normal_final))
        = int (length (sent normal_final))"
    and all: "sent_rows normal_final = map int [0..<length (cfg_rows example_cfg)]"
    by blast+
  from all g(3) have sr: "sent_rows normal_final = [0, 1]"
    by (simp add: upt_rec)
  then have "length (sent normal_final) = 2"
    unfolding sent_rows_def by (metis length_map length_Cons list.size(3) numeral_2_eq_2)
  with n have "sint (CompletedRows (stats normal_final)) + sint (FailedRows (stats normal_final)) = 2"
    by simp
  with normal_final_run h g m sr show ?thesis by simp
qed

end
